theory Spec2Isabelle
  imports Main "HOL-Library.Word" "HOL-Library.Product_Lexorder"
begin

unbundle bit_operations_syntax

section \<open>Nonce search: ScanScryptHash (miner.cpp, lines 531-565)\<close>

text \<open>
  A \<open>uint256\<close> is a blob of 32 bytes. \<open>ArithToUint256\<close> lays an \<open>arith_uint256\<close> out
  little-endian, so data byte \<open>i\<close> of the blob holds bits \<open>8 i .. 8 i + 7\<close> of the number and
  \<open>UintToArith256\<close> reads the same number back. The blob is therefore kept as the 256-bit
  number itself, and \<open>byte_at v i\<close> is the source's \<open>((uint8_t*)&v)[i]\<close>.
\<close>

type_synonym uint256 = "256 word"
type_synonym uint32_t = "32 word"
type_synonym uint8_t = "8 word"

definition byte_at :: "uint256 \<Rightarrow> nat \<Rightarrow> uint8_t" where
  "byte_at v i = ucast (drop_bit (8 * i) v)"

record CBlockHeader =
  nVersion :: "32 word"
  hashPrevBlock :: uint256
  hashMerkleRoot :: uint256
  nTime :: uint32_t
  nBits :: uint32_t
  nNonce :: uint32_t

text \<open>
  The first loop of the function:
  \<^verbatim>\<open>for ( ; firstLEZeroByte > 1 ; -- firstLEZeroByte )
      if ( ((uint8_t*)&uint256solution)[ firstLEZeroByte - 1 ] != 0 ) break ;\<close>
\<close>

fun firstLEZeroByte_loop :: "uint256 \<Rightarrow> nat \<Rightarrow> nat" where
  "firstLEZeroByte_loop uint256solution firstLEZeroByte =
     (if firstLEZeroByte > 1
      then (if byte_at uint256solution (firstLEZeroByte - 1) \<noteq> 0
            then firstLEZeroByte
            else firstLEZeroByte_loop uint256solution (firstLEZeroByte - 1))
      else firstLEZeroByte)"

text \<open>
  The test of a hash:
  \<^verbatim>\<open>bool found = true ;
  for ( size_t j = firstLEZeroByte ; j < 32 ; ++ j )
      if ( ((uint8_t*)phash)[ j ] != 0 ) { found = false ; break ; }\<close>
\<close>

function found_loop :: "uint256 \<Rightarrow> nat \<Rightarrow> bool" where
  "found_loop hash j =
     (if j < 32
      then (if byte_at hash j \<noteq> 0 then False else found_loop hash (j + 1))
      else True)"
  by pat_completeness auto
termination
  by (relation "measure (\<lambda>(hash, j). 32 - j)") auto

text \<open>
  What a call leaves behind: the returned flag and the three locations it writes through
  references and pointers (\<open>nNonce\<close>, \<open>*phash\<close>, \<open>hashesScanned\<close>).
\<close>

record scan_result =
  found :: bool
  nNonce_out :: uint32_t
  phash :: uint256
  hashesScanned :: uint32_t

text \<open>
  The \<open>while ( true )\<close> loop. \<open>scrypt_1024_1_1_256\<close> (crypto/scrypt.h) is not part of
  this file; it is the parameter \<open>scrypt\<close>, applied to the header carrying the nonce.
  \<open>nNonce\<close> and \<open>hashesScanned\<close> are 32-bit and wrap.
\<close>

function scan_loop ::
  "(CBlockHeader \<Rightarrow> uint256) \<Rightarrow> CBlockHeader \<Rightarrow> nat \<Rightarrow> uint32_t \<Rightarrow> uint32_t \<Rightarrow> scan_result"
where
  "scan_loop scrypt blockHeader firstLEZeroByte nonce scanned =
     (if found_loop (scrypt (blockHeader\<lparr>nNonce := nonce\<rparr>)) firstLEZeroByte
      then \<lparr>found = True, nNonce_out = nonce + 1,
            phash = scrypt (blockHeader\<lparr>nNonce := nonce\<rparr>), hashesScanned = scanned + 1\<rparr>
      else if (nonce + 1) AND 0xfff = 0
      then \<lparr>found = False, nNonce_out = nonce + 1,
            phash = scrypt (blockHeader\<lparr>nNonce := nonce\<rparr>), hashesScanned = scanned + 1\<rparr>
      else scan_loop scrypt (blockHeader\<lparr>nNonce := nonce\<rparr>) firstLEZeroByte
             (nonce + 1) (scanned + 1))"
  by pat_completeness auto


lemma and_fff_iff: "(w :: 32 word) AND 0xfff = 0 \<longleftrightarrow> unat w mod 4096 = 0"
proof -
  have "w AND 0xfff = w AND mask 12" by (simp add: mask_eq_exp_minus_1)
  also have "\<dots> = take_bit 12 w" by (simp add: take_bit_eq_mask)
  finally have e: "w AND 0xfff = take_bit 12 w" .
  have "unat (take_bit 12 w) = unat w mod 4096"
    by (simp only: unsigned_take_bit_eq) (simp add: take_bit_eq_mod)
  then show ?thesis unfolding e
    by (metis unat_eq_zero)
qed

lemma unat_succ_mod: "unat ((w :: 32 word) + 1) mod 4096 = (unat w + 1) mod 4096"
proof -
  have "unat (w + 1) = (unat w + 1) mod 2 ^ 32"
    by (simp add: unat_word_ariths)
  moreover have "((unat w + 1) mod 2 ^ 32) mod 4096 = (unat w + 1) mod 4096"
    by (rule mod_mod_cancel) simp
  ultimately show ?thesis by simp
qed

lemma succ_not_aligned:
  assumes "((w :: 32 word) + 1) AND 0xfff \<noteq> 0"
  shows "unat (w + 1) mod 4096 = unat w mod 4096 + 1"
proof -
  have nz: "(unat w + 1) mod 4096 \<noteq> 0"
    using assms by (simp add: and_fff_iff unat_succ_mod)
  have "(unat w + 1) mod 4096 = (unat w mod 4096 + 1) mod 4096"
    by (simp add: mod_simps)
  moreover have "unat w mod 4096 < 4096" by simp
  ultimately have "(unat w + 1) mod 4096 = unat w mod 4096 + 1"
    using nz by (metis Suc_eq_plus1 mod_Suc)
  then show ?thesis by (simp add: unat_succ_mod)
qed

termination scan_loop
proof (relation "measure (\<lambda>(scrypt, blockHeader, firstLEZeroByte, nonce, scanned).
                   4096 - unat nonce mod 4096)")
  show "wf (measure (\<lambda>(scrypt, blockHeader, firstLEZeroByte, nonce, scanned).
                   4096 - unat (nonce :: 32 word) mod 4096))"
    by simp
next
  fix scrypt :: "CBlockHeader \<Rightarrow> uint256" and blockHeader :: CBlockHeader
    and firstLEZeroByte :: nat and nonce scanned :: uint32_t
  assume "(nonce + 1) AND 0xfff \<noteq> 0"
  then have "unat (nonce + 1) mod 4096 = unat nonce mod 4096 + 1"
    by (rule succ_not_aligned)
  moreover have "unat (nonce + 1) mod 4096 < 4096" by simp
  ultimately show "((scrypt, blockHeader\<lparr>nNonce := nonce\<rparr>, firstLEZeroByte, nonce + 1, scanned + 1),
         (scrypt, blockHeader, firstLEZeroByte, nonce, scanned))
        \<in> measure (\<lambda>(scrypt, blockHeader, firstLEZeroByte, nonce, scanned).
                   4096 - unat nonce mod 4096)"
    by simp
qed

declare found_loop.simps [simp del]
declare scan_loop.simps [simp del]
declare firstLEZeroByte_loop.simps [simp del]

text \<open>
  The whole function. \<open>phash0\<close> and \<open>hashesScanned0\<close> are what the caller's buffers hold
  on entry; the early \<open>return true\<close> leaves them and the nonce untouched.
\<close>

definition ScanScryptHash ::
  "(CBlockHeader \<Rightarrow> uint256) \<Rightarrow> CBlockHeader \<Rightarrow> uint32_t \<Rightarrow> uint256 \<Rightarrow> uint256 \<Rightarrow> uint32_t
     \<Rightarrow> scan_result"
where
  "ScanScryptHash scrypt blockHeader nonce phash0 solutionHash hashesScanned0 =
     (if firstLEZeroByte_loop solutionHash 32 = 32
      then \<lparr>found = True, nNonce_out = nonce, phash = phash0, hashesScanned = hashesScanned0\<rparr>
      else scan_loop scrypt blockHeader (firstLEZeroByte_loop solutionHash 32) nonce
             hashesScanned0)"

text \<open>
  A stand-in for the hash function in evaluations: every header hashes to \<open>v\<close>.
\<close>

definition const_scrypt :: "uint256 \<Rightarrow> CBlockHeader \<Rightarrow> uint256" where
  "const_scrypt v blockHeader = v"

text \<open>
  A stand-in that tells the nonces apart: the header with nonce \<open>k\<close> hashes to 255, every
  other header to 256.
\<close>

definition scrypt_at :: "uint32_t \<Rightarrow> CBlockHeader \<Rightarrow> uint256" where
  "scrypt_at k blockHeader = (if nNonce blockHeader = k then 255 else 256)"

definition header0 :: CBlockHeader where
  "header0 = \<lparr>nVersion = 1, hashPrevBlock = 0, hashMerkleRoot = 0, nTime = 0, nBits = 0,
              nNonce = 0\<rparr>"

lemma found_loop_iff:
  "found_loop h j \<longleftrightarrow> (\<forall>i. j \<le> i \<and> i < 32 \<longrightarrow> byte_at h i = 0)"
proof (induction h j rule: found_loop.induct)
  case (1 h j)
  show ?case
  proof (cases "j < 32")
    case False
    then show ?thesis by (auto simp: found_loop.simps)
  next
    case True
    show ?thesis
    proof (cases "byte_at h j = 0")
      case False
      with True show ?thesis by (auto simp: found_loop.simps)
    next
      case z: True
      have "found_loop h j = found_loop h (j + 1)"
        using True z by (simp add: found_loop.simps)
      also have "\<dots> \<longleftrightarrow> (\<forall>i. j + 1 \<le> i \<and> i < 32 \<longrightarrow> byte_at h i = 0)"
        using "1.IH" True z by simp
      also have "\<dots> \<longleftrightarrow> (\<forall>i. j \<le> i \<and> i < 32 \<longrightarrow> byte_at h i = 0)"
        using z by (metis Suc_eq_plus1 Suc_leI le_neq_implies_less add_leD1 order_refl not_less_eq_eq le_antisym)
      finally show ?thesis .
    qed
  qed
qed

lemma scan_loop_steps:
  "\<exists>k. 1 \<le> k \<and> k \<le> 4096 - unat n mod 4096
       \<and> nNonce_out (scan_loop scrypt hdr f n s) = n + of_nat k
       \<and> hashesScanned (scan_loop scrypt hdr f n s) = s + of_nat k
       \<and> (found (scan_loop scrypt hdr f n s) \<or> nNonce_out (scan_loop scrypt hdr f n s) AND 0xfff = 0)"
proof (induction scrypt hdr f n s rule: scan_loop.induct)
  case (1 scrypt hdr f n s)
  have lt: "unat n mod 4096 < 4096" by simp
  show ?case
  proof (cases "found_loop (scrypt (hdr\<lparr>nNonce := n\<rparr>)) f \<or> (n + 1) AND 0xfff = 0")
    case True
    then have "1 \<le> (1::nat) \<and> (1::nat) \<le> 4096 - unat n mod 4096
       \<and> nNonce_out (scan_loop scrypt hdr f n s) = n + of_nat 1
       \<and> hashesScanned (scan_loop scrypt hdr f n s) = s + of_nat 1
       \<and> (found (scan_loop scrypt hdr f n s) \<or> nNonce_out (scan_loop scrypt hdr f n s) AND 0xfff = 0)"
      using lt by (auto simp: scan_loop.simps [of scrypt hdr f n s])
    then show ?thesis by blast
  next
    case False
    then have nf: "\<not> found_loop (scrypt (hdr\<lparr>nNonce := n\<rparr>)) f" and na: "(n + 1) AND 0xfff \<noteq> 0"
      by simp_all
    have eq: "scan_loop scrypt hdr f n s = scan_loop scrypt (hdr\<lparr>nNonce := n\<rparr>) f (n + 1) (s + 1)"
      using nf na by (simp add: scan_loop.simps [of scrypt hdr f n s])
    from "1.IH" [OF nf na] obtain k where k: "1 \<le> k" "k \<le> 4096 - unat (n + 1) mod 4096"
      "nNonce_out (scan_loop scrypt (hdr\<lparr>nNonce := n\<rparr>) f (n + 1) (s + 1)) = n + 1 + of_nat k"
      "hashesScanned (scan_loop scrypt (hdr\<lparr>nNonce := n\<rparr>) f (n + 1) (s + 1)) = s + 1 + of_nat k"
      "found (scan_loop scrypt (hdr\<lparr>nNonce := n\<rparr>) f (n + 1) (s + 1))
         \<or> nNonce_out (scan_loop scrypt (hdr\<lparr>nNonce := n\<rparr>) f (n + 1) (s + 1)) AND 0xfff = 0"
      by blast
    have m: "unat (n + 1) mod 4096 = unat n mod 4096 + 1"
      using na by (rule succ_not_aligned)
    have "1 \<le> Suc k \<and> Suc k \<le> 4096 - unat n mod 4096
       \<and> nNonce_out (scan_loop scrypt hdr f n s) = n + of_nat (Suc k)
       \<and> hashesScanned (scan_loop scrypt hdr f n s) = s + of_nat (Suc k)
       \<and> (found (scan_loop scrypt hdr f n s) \<or> nNonce_out (scan_loop scrypt hdr f n s) AND 0xfff = 0)"
      using k m lt unfolding eq by (simp add: algebra_simps)
    then show ?thesis by blast
  qed
qed

lemma scan_loop_found:
  "found (scan_loop scrypt hdr f n s) \<Longrightarrow>
     phash (scan_loop scrypt hdr f n s)
       = scrypt (hdr\<lparr>nNonce := nNonce_out (scan_loop scrypt hdr f n s) - 1\<rparr>)
     \<and> found_loop (phash (scan_loop scrypt hdr f n s)) f"
proof (induction scrypt hdr f n s rule: scan_loop.induct)
  case (1 scrypt hdr f n s)
  show ?case
  proof (cases "found_loop (scrypt (hdr\<lparr>nNonce := n\<rparr>)) f")
    case True
    then show ?thesis by (simp add: scan_loop.simps [of scrypt hdr f n s])
  next
    case nf: False
    show ?thesis
    proof (cases "(n + 1) AND 0xfff = 0")
      case True
      with nf "1.prems" show ?thesis by (simp add: scan_loop.simps [of scrypt hdr f n s])
    next
      case na: False
      have eq: "scan_loop scrypt hdr f n s = scan_loop scrypt (hdr\<lparr>nNonce := n\<rparr>) f (n + 1) (s + 1)"
        using nf na by (simp add: scan_loop.simps [of scrypt hdr f n s])
      have r: "found (scan_loop scrypt (hdr\<lparr>nNonce := n\<rparr>) f (n + 1) (s + 1))"
        using "1.prems" unfolding eq .
      note C = "1.IH" [OF nf na r]
      have A: "phash (scan_loop scrypt (hdr\<lparr>nNonce := n\<rparr>) f (n + 1) (s + 1))
                = scrypt (hdr\<lparr>nNonce := nNonce_out (scan_loop scrypt (hdr\<lparr>nNonce := n\<rparr>) f (n + 1) (s + 1)) - 1\<rparr>)"
        using conjunct1 [OF C] by simp
      have B: "found_loop (phash (scan_loop scrypt (hdr\<lparr>nNonce := n\<rparr>) f (n + 1) (s + 1))) f"
        by (rule conjunct2 [OF C])
      show ?thesis unfolding eq using A B by blast
    qed
  qed
qed

lemma bytes_zero_bound:
  assumes "\<forall>i. f \<le> i \<and> i < 32 \<longrightarrow> byte_at h i = 0"
  shows "drop_bit (8 * f) h = 0"
proof (rule bit_word_eqI)
  fix n assume n: "n < LENGTH(256)"
  show "bit (drop_bit (8 * f) h) n = bit (0 :: 256 word) n"
  proof (cases "bit h (8 * f + n)")
    case False
    then show ?thesis by (simp add: bit_drop_bit_eq add.commute)
  next
    case True
    then have lt: "8 * f + n < 256" using bit_imp_le_length [of h "8 * f + n"] by simp
    define i where "i = (8 * f + n) div 8"
    define b where "b = (8 * f + n) mod 8"
    have i: "f \<le> i" "i < 32" using lt by (simp_all add: i_def)
    have b: "b < 8" by (simp add: b_def)
    have e: "8 * i + b = 8 * f + n" by (simp add: i_def b_def)
    have "bit (byte_at h i) b = bit h (8 * i + b)"
      using b by (simp add: byte_at_def bit_ucast_iff bit_drop_bit_eq add.commute)
    moreover have "byte_at h i = 0" using assms i by blast
    ultimately show ?thesis using True e by simp
  qed
qed


lemma firstLEZeroByte_loop_le: "firstLEZeroByte_loop sol f \<le> f"
proof (induction sol f rule: firstLEZeroByte_loop.induct)
  case (1 sol f)
  show ?case
  proof (cases "f > 1 \<and> byte_at sol (f - 1) = 0")
    case True
    then have "firstLEZeroByte_loop sol f = firstLEZeroByte_loop sol (f - 1)"
      by (simp add: firstLEZeroByte_loop.simps [of sol f])
    moreover have "firstLEZeroByte_loop sol (f - 1) \<le> f - 1"
      using "1.IH" True by simp
    ultimately show ?thesis by simp
  next
    case False
    then show ?thesis by (auto simp: firstLEZeroByte_loop.simps [of sol f])
  qed
qed

lemma firstLEZeroByte_loop_zero:
  "firstLEZeroByte_loop sol f \<le> i \<Longrightarrow> i < f \<Longrightarrow> byte_at sol i = 0"
proof (induction sol f rule: firstLEZeroByte_loop.induct)
  case (1 sol f)
  show ?case
  proof (cases "f > 1 \<and> byte_at sol (f - 1) = 0")
    case True
    then have eq: "firstLEZeroByte_loop sol f = firstLEZeroByte_loop sol (f - 1)"
      by (simp add: firstLEZeroByte_loop.simps [of sol f])
    show ?thesis
    proof (cases "i = f - 1")
      case True
      with \<open>f > 1 \<and> byte_at sol (f - 1) = 0\<close> show ?thesis by simp
    next
      case False
      with "1.prems" have "i < f - 1" by simp
      moreover have "firstLEZeroByte_loop sol (f - 1) \<le> i" using "1.prems" eq by simp
      ultimately show ?thesis using "1.IH" True by simp
    qed
  next
    case False
    then have "firstLEZeroByte_loop sol f = f"
      by (auto simp: firstLEZeroByte_loop.simps [of sol f])
    with "1.prems" show ?thesis by simp
  qed
qed

lemma firstLEZeroByte_32_iff: "firstLEZeroByte_loop sol 32 = 32 \<longleftrightarrow> byte_at sol 31 \<noteq> 0"
proof (cases "byte_at sol 31 = 0")
  case True
  then have "firstLEZeroByte_loop sol 32 = firstLEZeroByte_loop sol 31"
    by (simp add: firstLEZeroByte_loop.simps [of sol 32])
  moreover have "firstLEZeroByte_loop sol 31 \<le> 31" by (rule firstLEZeroByte_loop_le)
  ultimately show ?thesis using True by simp
next
  case False
  then show ?thesis by (simp add: firstLEZeroByte_loop.simps [of sol 32])
qed

lemma small_word_of_nat_nonzero:
  assumes "1 \<le> k" "k \<le> 4096"
  shows "(of_nat k :: 32 word) \<noteq> 0"
proof
  assume "(of_nat k :: 32 word) = 0"
  then have "2 ^ 32 dvd k" by (simp add: word_of_nat_eq_0_iff)
  then have "(2::nat) ^ 32 \<le> k" using assms(1) by (intro dvd_imp_le) simp_all
  with assms(2) show False by simp
qed

lemma drop_bit_zero_bound:
  assumes "drop_bit n (w :: 256 word) = 0"
  shows "unat w < 2 ^ n"
proof -
  have "take_bit n w = w"
    using assms by (simp add: take_bit_eq_self_iff_drop_bit_eq_0)
  then have "unat w = unat (take_bit n w)" by simp
  also have "\<dots> = take_bit n (unat w)" by (simp only: unsigned_take_bit_eq)
  also have "\<dots> < 2 ^ n" by (rule take_bit_nat_less_exp)
  finally show ?thesis .
qed

text \<open>
  Claim C9. Every call to \<open>ScanScryptHash\<close> returns (the model is a total function: the
  recursion of \<open>scan_loop\<close> is well-founded on the distance of the nonce to the next multiple
  of 4096). The call computes \<open>k \<le> 4096\<close> hashes, \<open>k\<close> being the amount by which both the
  nonce and the hashes-scanned counter have advanced, and it returns either a candidate or
  with the incremented nonce at a multiple of 4096 (\<open>nNonce & 0xfff == 0\<close>).
\<close>

theorem ScanScryptHash_returns_within_4096:
  "\<exists>k. k \<le> 4096
     \<and> hashesScanned (ScanScryptHash scrypt hdr n h0 sol s0) = s0 + of_nat k
     \<and> nNonce_out (ScanScryptHash scrypt hdr n h0 sol s0) = n + of_nat k
     \<and> (found (ScanScryptHash scrypt hdr n h0 sol s0)
         \<or> nNonce_out (ScanScryptHash scrypt hdr n h0 sol s0) AND 0xfff = 0)"
proof (cases "firstLEZeroByte_loop sol 32 = 32")
  case True
  then have "(0::nat) \<le> 4096
     \<and> hashesScanned (ScanScryptHash scrypt hdr n h0 sol s0) = s0 + of_nat 0
     \<and> nNonce_out (ScanScryptHash scrypt hdr n h0 sol s0) = n + of_nat 0
     \<and> (found (ScanScryptHash scrypt hdr n h0 sol s0)
         \<or> nNonce_out (ScanScryptHash scrypt hdr n h0 sol s0) AND 0xfff = 0)"
    by (simp add: ScanScryptHash_def)
  then show ?thesis by blast
next
  case False
  then have eq: "ScanScryptHash scrypt hdr n h0 sol s0
      = scan_loop scrypt hdr (firstLEZeroByte_loop sol 32) n s0"
    by (simp add: ScanScryptHash_def)
  from scan_loop_steps [of n scrypt hdr "firstLEZeroByte_loop sol 32" s0]
  obtain k where k: "1 \<le> k" "k \<le> 4096 - unat n mod 4096"
      "nNonce_out (scan_loop scrypt hdr (firstLEZeroByte_loop sol 32) n s0) = n + of_nat k"
      "hashesScanned (scan_loop scrypt hdr (firstLEZeroByte_loop sol 32) n s0) = s0 + of_nat k"
      "found (scan_loop scrypt hdr (firstLEZeroByte_loop sol 32) n s0)
        \<or> nNonce_out (scan_loop scrypt hdr (firstLEZeroByte_loop sol 32) n s0) AND 0xfff = 0"
    by blast
  have "k \<le> 4096" using k(2) by simp
  then show ?thesis unfolding eq using k(3,4,5) by blast
qed

text \<open>
  Claim C4, as stated, fails. With a target of 32 zero bytes the first loop walks
  \<open>firstLEZeroByte\<close> down to 1, not 32, so the function enters the search loop. Started
  at nonce \<open>0xfff\<close> with a hash function whose output has a non-zero byte 1, it computes one
  hash and returns \<^emph>\<open>without\<close> success.
\<close>

theorem ScanScryptHash_zero_target_counterexample:
  "ScanScryptHash (const_scrypt 0x100) header0 0xfff 0 0 0
     = \<lparr>found = False, nNonce_out = 0x1000, phash = 0x100, hashesScanned = 1\<rparr>"
  by (simp add: ScanScryptHash_def firstLEZeroByte_loop.simps scan_loop.simps found_loop.simps
      byte_at_def const_scrypt_def header0_def)

text \<open>
  Claim C4, amended. The immediate \<open>return true\<close> ("nothing to look for") is taken exactly
  when the most significant byte of the target, byte 31, is non-zero: then no hash is
  computed and nonce, hash buffer and counter are left as they were. When byte 31 is zero
  (in particular for the all-zero target) the search loop runs and at least one hash is
  computed, so the counter and the nonce both move.
\<close>

theorem ScanScryptHash_early_return:
  "(byte_at sol 31 \<noteq> 0 \<longrightarrow>
      ScanScryptHash scrypt hdr n h0 sol s0
        = \<lparr>found = True, nNonce_out = n, phash = h0, hashesScanned = s0\<rparr>)
   \<and> (byte_at sol 31 = 0 \<longrightarrow>
      hashesScanned (ScanScryptHash scrypt hdr n h0 sol s0) \<noteq> s0
      \<and> nNonce_out (ScanScryptHash scrypt hdr n h0 sol s0) \<noteq> n)"
proof (intro conjI impI)
  assume "byte_at sol 31 \<noteq> 0"
  then show "ScanScryptHash scrypt hdr n h0 sol s0
        = \<lparr>found = True, nNonce_out = n, phash = h0, hashesScanned = s0\<rparr>"
    by (simp add: ScanScryptHash_def firstLEZeroByte_32_iff)
next
  assume z: "byte_at sol 31 = 0"
  then have eq: "ScanScryptHash scrypt hdr n h0 sol s0
      = scan_loop scrypt hdr (firstLEZeroByte_loop sol 32) n s0"
    by (simp add: ScanScryptHash_def firstLEZeroByte_32_iff)
  from scan_loop_steps [of n scrypt hdr "firstLEZeroByte_loop sol 32" s0]
  obtain k where k: "1 \<le> k" "k \<le> 4096 - unat n mod 4096"
      "nNonce_out (scan_loop scrypt hdr (firstLEZeroByte_loop sol 32) n s0) = n + of_nat k"
      "hashesScanned (scan_loop scrypt hdr (firstLEZeroByte_loop sol 32) n s0) = s0 + of_nat k"
    by blast
  have "(of_nat k :: 32 word) \<noteq> 0"
    using k(1,2) by (intro small_word_of_nat_nonzero) simp_all
  then show "hashesScanned (ScanScryptHash scrypt hdr n h0 sol s0) \<noteq> s0"
    and "nNonce_out (ScanScryptHash scrypt hdr n h0 sol s0) \<noteq> n"
    unfolding eq k(3,4) by simp_all
qed

text \<open>Both branches of the amended claim C4 at concrete targets: \<open>2^248\<close> and \<open>0\<close>.\<close>

theorem ScanScryptHash_early_return_witness:
  "ScanScryptHash (const_scrypt 0) header0 7 5 (push_bit 248 1) 3
     = \<lparr>found = True, nNonce_out = 7, phash = 5, hashesScanned = 3\<rparr>
   \<and> hashesScanned (ScanScryptHash (const_scrypt 0) header0 7 5 0 3) \<noteq> 3
   \<and> nNonce_out (ScanScryptHash (const_scrypt 0) header0 7 5 0 3) \<noteq> 7"
  using ScanScryptHash_early_return [of "push_bit 248 1" "const_scrypt 0" header0 7 5 3]
    ScanScryptHash_early_return [of 0 "const_scrypt 0" header0 7 5 3]
  by (simp add: byte_at_def)

text \<open>
  Claim C3, as stated, fails. Target 1, a hash function that answers 255: bytes 1 to 31 of
  the hash are zero, which is all the function tests, so it reports success although
  \<open>255 > 1\<close>.
\<close>

theorem ScanScryptHash_soundness_counterexample:
  "found (ScanScryptHash (const_scrypt 255) header0 0 0 1 0)
   \<and> nNonce_out (ScanScryptHash (const_scrypt 255) header0 0 0 1 0) = 1
   \<and> phash (ScanScryptHash (const_scrypt 255) header0 0 0 1 0) = 255
   \<and> \<not> const_scrypt 255
         (header0\<lparr>nNonce := nNonce_out (ScanScryptHash (const_scrypt 255) header0 0 0 1 0)\<rparr>)
       \<le> 1"
  by (simp add: ScanScryptHash_def firstLEZeroByte_loop.simps scan_loop.simps found_loop.simps
      byte_at_def const_scrypt_def header0_def word_le_nat_alt)

text \<open>
  Claim C3, amended. When \<open>ScanScryptHash\<close> returns success after searching (byte 31 of the
  target is zero), it has computed \<open>j + 1\<close> hashes for some \<open>j < 4096\<close>, at the nonces
  \<open>n\<close>, \<open>n + 1\<close>, ..., \<open>n + j\<close> counted from the nonce \<open>n\<close> it was started with, and the hash
  it hands back is the scrypt hash of the header at the last of them, \<open>n + j\<close>. Every byte
  of that hash from \<open>firstLEZeroByte\<close> upwards is zero, as is every such byte of the target:
  the hash is below \<open>256 ^ firstLEZeroByte\<close>. This is the necessary condition the source's
  comment names; \<open>hash \<le> target\<close> itself is left to the caller.
\<close>

theorem ScanScryptHash_success_necessary:
  assumes "found (ScanScryptHash scrypt hdr n h0 sol s0)"
    and "byte_at sol 31 = 0"
  shows "(\<exists>j. j < 4096
            \<and> hashesScanned (ScanScryptHash scrypt hdr n h0 sol s0) = s0 + of_nat j + 1
            \<and> phash (ScanScryptHash scrypt hdr n h0 sol s0)
                = scrypt (hdr\<lparr>nNonce := n + of_nat j\<rparr>))
       \<and> (\<forall>i. firstLEZeroByte_loop sol 32 \<le> i \<and> i < 32 \<longrightarrow>
             byte_at (phash (ScanScryptHash scrypt hdr n h0 sol s0)) i = 0
             \<and> byte_at sol i = 0)
       \<and> unat (phash (ScanScryptHash scrypt hdr n h0 sol s0))
           < 2 ^ (8 * firstLEZeroByte_loop sol 32)"
proof -
  let ?f = "firstLEZeroByte_loop sol 32"
  have eq: "ScanScryptHash scrypt hdr n h0 sol s0 = scan_loop scrypt hdr ?f n s0"
    using assms(2) by (simp add: ScanScryptHash_def firstLEZeroByte_32_iff)
  have fnd: "found (scan_loop scrypt hdr ?f n s0)" using assms(1) unfolding eq .
  note C = scan_loop_found [OF fnd]
  from scan_loop_steps [of n scrypt hdr ?f s0]
  obtain k where k: "1 \<le> k" "k \<le> 4096 - unat n mod 4096"
      "nNonce_out (scan_loop scrypt hdr ?f n s0) = n + of_nat k"
      "hashesScanned (scan_loop scrypt hdr ?f n s0) = s0 + of_nat k"
    by blast
  obtain j where j: "k = Suc j" using k(1) by (cases k) simp_all
  have j4: "j < 4096" using k(2) j by simp
  have hs: "hashesScanned (scan_loop scrypt hdr ?f n s0) = s0 + of_nat j + 1"
    unfolding k(4) j by simp
  have "nNonce_out (scan_loop scrypt hdr ?f n s0) - 1 = n + of_nat j"
    unfolding k(3) j by simp
  then have ph: "phash (scan_loop scrypt hdr ?f n s0) = scrypt (hdr\<lparr>nNonce := n + of_nat j\<rparr>)"
    using conjunct1 [OF C] by simp
  have z: "\<forall>i. ?f \<le> i \<and> i < 32 \<longrightarrow> byte_at (phash (scan_loop scrypt hdr ?f n s0)) i = 0"
    using conjunct2 [OF C] by (simp only: found_loop_iff)
  have b: "unat (phash (scan_loop scrypt hdr ?f n s0)) < 2 ^ (8 * ?f)"
    by (rule drop_bit_zero_bound [OF bytes_zero_bound [OF z]])
  have t: "\<forall>i. ?f \<le> i \<and> i < 32 \<longrightarrow> byte_at sol i = 0"
    using firstLEZeroByte_loop_zero by blast
  show ?thesis unfolding eq using j4 hs ph z b t by blast
qed

text \<open>
  The amended claim C3 at target 1, started at nonce 0 with the hash function that
  answers 255 at nonce 2 only: three hashes are computed and the hash handed back is the
  one of nonce 2.
\<close>

theorem ScanScryptHash_success_necessary_witness:
  "found (ScanScryptHash (scrypt_at 2) header0 0 0 1 0)
   \<and> byte_at 1 31 = 0
   \<and> (\<exists>j. j < 4096
         \<and> hashesScanned (ScanScryptHash (scrypt_at 2) header0 0 0 1 0) = 0 + of_nat j + 1
         \<and> phash (ScanScryptHash (scrypt_at 2) header0 0 0 1 0)
             = scrypt_at 2 (header0\<lparr>nNonce := 0 + of_nat j\<rparr>))
   \<and> hashesScanned (ScanScryptHash (scrypt_at 2) header0 0 0 1 0) = 3
   \<and> phash (ScanScryptHash (scrypt_at 2) header0 0 0 1 0) = scrypt_at 2 (header0\<lparr>nNonce := 2\<rparr>)
   \<and> unat (phash (ScanScryptHash (scrypt_at 2) header0 0 0 1 0)) < 256"
proof -
  have r: "ScanScryptHash (scrypt_at 2) header0 0 0 1 0
             = \<lparr>found = True, nNonce_out = 3, phash = 255, hashesScanned = 3\<rparr>"
    by (simp add: ScanScryptHash_def firstLEZeroByte_loop.simps scan_loop.simps found_loop.simps
      byte_at_def scrypt_at_def header0_def)
  have f: "found (ScanScryptHash (scrypt_at 2) header0 0 0 1 0)"
    unfolding r by simp
  have b: "byte_at 1 31 = 0" by (simp add: byte_at_def)
  have e: "firstLEZeroByte_loop 1 32 = 1"
    by (simp add: firstLEZeroByte_loop.simps byte_at_def)
  have v: "hashesScanned (ScanScryptHash (scrypt_at 2) header0 0 0 1 0) = 3"
    "phash (ScanScryptHash (scrypt_at 2) header0 0 0 1 0) = scrypt_at 2 (header0\<lparr>nNonce := 2\<rparr>)"
    unfolding r by (simp_all add: scrypt_at_def)
  note T = ScanScryptHash_success_necessary [OF f b]
  have "unat (phash (ScanScryptHash (scrypt_at 2) header0 0 0 1 0))
          < 2 ^ (8 * firstLEZeroByte_loop 1 32)"
    using T by blast
  then have "unat (phash (ScanScryptHash (scrypt_at 2) header0 0 0 1 0)) < 256"
    by (simp add: e)
  with f b v T show ?thesis by blast
qed



section \<open>Block template assembly: BlockAssembler (miner.cpp, lines 69-445)\<close>

subsection \<open>The memory pool, as the assembler reads it\<close>

text \<open>
  A transaction of the pool is known to the assembler by its handle, a
  \<open>CTxMemPool::txiter\<close>; the handles are the type \<open>'h\<close>. A pool holds finitely many
  entries, and \<open>CTxMemPool::setEntries\<close> is a \<open>std::set\<close> ordered on the handles: \<open>'h\<close> is a
  finite linear order, a \<open>setEntries\<close> is an \<open>'h set\<close>, and a loop over one visits
  \<open>sorted_list_of_set\<close> of it.

  What the getters of a pool entry return (sizes, weights, fees, sig-op costs) are
  integers here; the pool does not compute with them in this file. The assembler does:
  its counters are 64-bit words and wrap, see \<open>BlockAssembler\<close> and \<open>TestPackage\<close> below.
\<close>

record 'h CTxMemPoolModifiedEntry =
  iter :: 'h
  nSizeWithAncestors :: int
  nModFeesWithAncestors :: int
  nSigOpCostWithAncestors :: int

text \<open>
  The class \<open>CTxMemPool\<close> and its entries (txmempool.h) are not part of this file. The
  record lists what miner.cpp calls on them: \<open>mapTx_ancestor_score\<close> is the walk of
  \<open>mapTx.get<ancestor_score>()\<close> from \<open>begin()\<close> to \<open>end()\<close>, the next ten fields are the
  getters of an entry, \<open>CalculateDescendants\<close> and \<open>CalculateMemPoolAncestors\<close> (called
  without limits) are the two set computations, \<open>IsFinalTx\<close> takes the handle, the height
  and the lock-time cutoff, and \<open>CompareTxMemPoolEntryByAncestorFee a b\<close> is the comparator
  that miner.cpp applies to modified entries: \<open>a\<close> has the better ancestor score.
\<close>

record 'h CTxMemPool =
  mapTx_ancestor_score :: "'h list"
  GetTxSize :: "'h \<Rightarrow> int"
  GetTxWeight :: "'h \<Rightarrow> int"
  GetFee :: "'h \<Rightarrow> int"
  GetModifiedFee :: "'h \<Rightarrow> int"
  GetSigOpCost :: "'h \<Rightarrow> int"
  GetCountWithAncestors :: "'h \<Rightarrow> nat"
  GetSizeWithAncestors :: "'h \<Rightarrow> int"
  GetModFeesWithAncestors :: "'h \<Rightarrow> int"
  GetSigOpCostWithAncestors :: "'h \<Rightarrow> int"
  CalculateDescendants :: "'h \<Rightarrow> 'h set"
  CalculateMemPoolAncestors :: "'h \<Rightarrow> 'h set"
  IsFinalTx :: "'h \<Rightarrow> int \<Rightarrow> int \<Rightarrow> bool"
  HasWitness :: "'h \<Rightarrow> bool"
  CompareTxMemPoolEntryByAncestorFee ::
    "'h CTxMemPoolModifiedEntry \<Rightarrow> 'h CTxMemPoolModifiedEntry \<Rightarrow> bool"

text \<open>
  Modelled from the spec: the constants of consensus/consensus.h are not under src/. The
  glossary gives the witness scale factor ("non-witness bytes count 4"); the two block
  limits have no value in the spec and are parameters.
\<close>

definition WITNESS_SCALE_FACTOR :: int where
  "WITNESS_SCALE_FACTOR = 4"

record consensus_limits =
  MAX_BLOCK_WEIGHT :: int
  MAX_BLOCK_SIGOPS_COST :: int

subsection \<open>The modified-entry overlay: indexed_modified_transaction_set\<close>

text \<open>
  Modelled from the spec: the container type, the constructor of a modified entry and
  \<open>update_for_parent_inclusion\<close> are declared in miner.h, which is not under src/. The
  container is keyed by handle (at most one entry per handle) and has a second view
  ordered by \<open>CompareTxMemPoolEntryByAncestorFee\<close>. It is kept as the list of its entries;
  \<open>modified_begin\<close> is \<open>get<ancestor_score>().begin()\<close>, an entry that the comparator puts
  before the others. A fresh modified entry copies the cached ancestor aggregates of its
  pool entry, and \<open>update_for_parent_inclusion(it)\<close> takes the individual size, modified
  fee and sig-op cost of \<open>it\<close> off an entry, as lines 269-271 do for a fresh one.
\<close>

type_synonym 'h indexed_modified_transaction_set = "'h CTxMemPoolModifiedEntry list"

definition modified_find ::
  "'h indexed_modified_transaction_set \<Rightarrow> 'h \<Rightarrow> 'h CTxMemPoolModifiedEntry option" where
  "modified_find mapModified h = find (\<lambda>e. iter e = h) mapModified"

definition modified_count :: "'h indexed_modified_transaction_set \<Rightarrow> 'h \<Rightarrow> bool" where
  "modified_count mapModified h = (modified_find mapModified h \<noteq> None)"

definition modified_insert ::
  "'h CTxMemPoolModifiedEntry \<Rightarrow> 'h indexed_modified_transaction_set
     \<Rightarrow> 'h indexed_modified_transaction_set" where
  "modified_insert e mapModified =
     (if modified_count mapModified (iter e) then mapModified else mapModified @ [e])"

definition modified_modify ::
  "'h \<Rightarrow> ('h CTxMemPoolModifiedEntry \<Rightarrow> 'h CTxMemPoolModifiedEntry)
     \<Rightarrow> 'h indexed_modified_transaction_set \<Rightarrow> 'h indexed_modified_transaction_set" where
  "modified_modify h f mapModified = map (\<lambda>e. if iter e = h then f e else e) mapModified"

definition modified_erase ::
  "'h \<Rightarrow> 'h indexed_modified_transaction_set \<Rightarrow> 'h indexed_modified_transaction_set" where
  "modified_erase h mapModified = filter (\<lambda>e. iter e \<noteq> h) mapModified"

fun best_by :: "('a \<Rightarrow> 'a \<Rightarrow> bool) \<Rightarrow> 'a \<Rightarrow> 'a list \<Rightarrow> 'a" where
  "best_by prior b [] = b"
| "best_by prior b (x # xs) = best_by prior (if prior x b then x else b) xs"

definition modified_begin ::
  "'h CTxMemPool \<Rightarrow> 'h indexed_modified_transaction_set \<Rightarrow> 'h CTxMemPoolModifiedEntry option"
where
  "modified_begin mempool mapModified =
     (case mapModified of
        [] \<Rightarrow> None
      | e # es \<Rightarrow> Some (best_by (CompareTxMemPoolEntryByAncestorFee mempool) e es))"

definition CTxMemPoolModifiedEntry_of :: "'h CTxMemPool \<Rightarrow> 'h \<Rightarrow> 'h CTxMemPoolModifiedEntry" where
  "CTxMemPoolModifiedEntry_of mempool entry =
     \<lparr>iter = entry,
      nSizeWithAncestors = GetSizeWithAncestors mempool entry,
      nModFeesWithAncestors = GetModFeesWithAncestors mempool entry,
      nSigOpCostWithAncestors = GetSigOpCostWithAncestors mempool entry\<rparr>"

definition update_for_parent_inclusion ::
  "'h CTxMemPool \<Rightarrow> 'h \<Rightarrow> 'h CTxMemPoolModifiedEntry \<Rightarrow> 'h CTxMemPoolModifiedEntry" where
  "update_for_parent_inclusion mempool it e =
     e\<lparr>nSizeWithAncestors := nSizeWithAncestors e - GetTxSize mempool it,
       nModFeesWithAncestors := nModFeesWithAncestors e - GetModifiedFee mempool it,
       nSigOpCostWithAncestors := nSigOpCostWithAncestors e - GetSigOpCost mempool it\<rparr>"

subsection \<open>Template and assembler\<close>

text \<open>
  A transaction of a block is the empty placeholder that \<open>vtx.emplace_back()\<close> creates,
  the coinbase that \<open>CreateNewBlock\<close> builds (its output script, its output value and the
  height its input script starts with), or the shared transaction of a pool entry.
\<close>

datatype 'h CTransactionRef =
    NullTx
  | CoinbaseTx "uint8_t list" int int
  | MempoolTx 'h

record 'h CBlock = CBlockHeader +
  vtx :: "'h CTransactionRef list"

record 'h CBlockTemplate =
  block :: "'h CBlock"
  vTxFees :: "int list"
  vTxSigOpsCost :: "int list"
  vchCoinbaseCommitment :: "uint8_t list"

text \<open>
  The members of \<open>BlockAssembler\<close> (miner.h). \<open>blockMinFeeRate\<close> is a \<open>CFeeRate\<close>, used
  only through \<open>GetFee(size)\<close> (policy/feerate.cpp, not under src/): the field is that
  function, the fee the configured rate asks of a size.

  The declarations are in miner.h, which is not under src/, so the types of the members
  are read off their uses. \<open>nBlockWeight\<close> and \<open>nBlockTx\<close> are unsigned 64-bit: lines
  162-163 copy them into the \<open>uint64_t\<close> globals of lines 51-52, and line 213 adds a
  \<open>uint64_t\<close> product to \<open>nBlockWeight\<close>. \<open>nBlockSigOpsCost\<close>, the third counter that
  \<open>resetBlock\<close> and \<open>AddToBlock\<close> keep beside them, is taken to be of the same type. The
  three are \<open>64 word\<close>, so \<open>+=\<close> wraps as in the source. \<open>nFees\<close> is a \<open>CAmount\<close>, a
  signed amount, and stays an integer, as do the height, the lock-time cutoff and the
  configured maximum weight (at least 4000 by line 78).
\<close>

record 'h BlockAssembler =
  blockMinFeeRate :: "int \<Rightarrow> int"
  nBlockMaxWeight :: int
  pblocktemplate :: "'h CBlockTemplate"
  fIncludeWitness :: bool
  nBlockWeight :: "64 word"
  nBlockTx :: "64 word"
  nBlockSigOpsCost :: "64 word"
  nFees :: int
  inBlock :: "'h set"
  nHeight :: int
  nLockTimeCutoff :: int

record BlockAssembler_Options =
  opt_blockMinFeeRate :: "int \<Rightarrow> int"
  opt_nBlockMaxWeight :: nat

definition new_CBlockTemplate :: "'h CBlockTemplate" where
  "new_CBlockTemplate =
     \<lparr>block = \<lparr>nVersion = 0, hashPrevBlock = 0, hashMerkleRoot = 0, nTime = 0, nBits = 0,
               nNonce = 0, vtx = []\<rparr>,
      vTxFees = [], vTxSigOpsCost = [], vchCoinbaseCommitment = []\<rparr>"

text \<open>
  The constructor (lines 74-79) sets the fee rate and clamps the weight; the other members
  are assigned by \<open>resetBlock\<close> and \<open>CreateNewBlock\<close> before they are read, and start
  here from zero. \<open>options.nBlockMaxWeight\<close> is a \<open>size_t\<close>, hence a natural number.
\<close>

definition BlockAssembler_new ::
  "consensus_limits \<Rightarrow> BlockAssembler_Options \<Rightarrow> 'h BlockAssembler" where
  "BlockAssembler_new limits options =
     \<lparr>blockMinFeeRate = opt_blockMinFeeRate options,
      nBlockMaxWeight =
        max 4000 (min (MAX_BLOCK_WEIGHT limits - 4000) (int (opt_nBlockMaxWeight options))),
      pblocktemplate = new_CBlockTemplate,
      fIncludeWitness = False,
      nBlockWeight = 0, nBlockTx = 0, nBlockSigOpsCost = 0, nFees = 0, inBlock = {},
      nHeight = 0, nLockTimeCutoff = 0\<rparr>"

definition resetBlock :: "'h BlockAssembler \<Rightarrow> 'h BlockAssembler" where
  "resetBlock a =
     a\<lparr>inBlock := {}, nBlockWeight := 4000, nBlockSigOpsCost := 400, fIncludeWitness := False,
       nBlockTx := 0, nFees := 0\<rparr>"

definition onlyUnconfirmed :: "'h BlockAssembler \<Rightarrow> 'h set \<Rightarrow> 'h set" where
  "onlyUnconfirmed a testSet = Set.filter (\<lambda>it. it \<notin> inBlock a) testSet"

text \<open>
  \<open>TestPackage\<close> (lines 210-218). Its parameter \<open>packageSize\<close> is a \<open>uint64_t\<close>, so
  the product, the sum and the comparison of line 213 are computed in \<open>uint64_t\<close>: the sum
  wraps at \<open>2^64\<close> and \<open>nBlockMaxWeight\<close> is converted. \<open>packageSigOpsCost\<close> is an
  \<open>int64_t\<close> added to the unsigned counter \<open>nBlockSigOpsCost\<close>, so line 215 is computed
  in \<open>uint64_t\<close> as well.
\<close>

definition TestPackage :: "consensus_limits \<Rightarrow> 'h BlockAssembler \<Rightarrow> int \<Rightarrow> int \<Rightarrow> bool" where
  "TestPackage limits a packageSize packageSigOpsCost =
     (if nBlockWeight a + word_of_int WITNESS_SCALE_FACTOR * word_of_int packageSize
           \<ge> word_of_int (nBlockMaxWeight a) then False
      else if nBlockSigOpsCost a + word_of_int packageSigOpsCost
           \<ge> word_of_int (MAX_BLOCK_SIGOPS_COST limits) then False
      else True)"

definition TestPackageTransactions :: "'h CTxMemPool \<Rightarrow> 'h BlockAssembler \<Rightarrow> 'h set \<Rightarrow> bool" where
  "TestPackageTransactions mempool a package =
     (\<forall>it \<in> package.
        IsFinalTx mempool it (nHeight a) (nLockTimeCutoff a)
        \<and> \<not> (\<not> fIncludeWitness a \<and> HasWitness mempool it))"

text \<open>
  \<open>AddToBlock\<close> (lines 235-252). The \<open>-printpriority\<close> branch only writes to the log.
\<close>

definition AddToBlock :: "'h CTxMemPool \<Rightarrow> 'h \<Rightarrow> 'h BlockAssembler \<Rightarrow> 'h BlockAssembler" where
  "AddToBlock mempool it a =
     a\<lparr>pblocktemplate :=
         (pblocktemplate a)
           \<lparr>block := (block (pblocktemplate a))
                       \<lparr>vtx := vtx (block (pblocktemplate a)) @ [MempoolTx it]\<rparr>,
            vTxFees := vTxFees (pblocktemplate a) @ [GetFee mempool it],
            vTxSigOpsCost := vTxSigOpsCost (pblocktemplate a) @ [GetSigOpCost mempool it]\<rparr>,
       nBlockWeight := nBlockWeight a + word_of_int (GetTxWeight mempool it),
       nBlockTx := nBlockTx a + 1,
       nBlockSigOpsCost := nBlockSigOpsCost a + word_of_int (GetSigOpCost mempool it),
       nFees := nFees a + GetFee mempool it,
       inBlock := insert it (inBlock a)\<rparr>"


text \<open>
  \<open>UpdatePackagesForAdded\<close> (lines 254-279): the body of the inner loop for one descendant
  \<open>desc\<close> of one added entry \<open>it\<close>, then the two loops. The state threaded through is the
  counter \<open>nDescendantsUpdated\<close> and \<open>mapModifiedTx\<close>.
\<close>

definition update_descendant ::
  "'h CTxMemPool \<Rightarrow> 'h set \<Rightarrow> 'h \<Rightarrow> 'h \<Rightarrow> int \<times> 'h indexed_modified_transaction_set
     \<Rightarrow> int \<times> 'h indexed_modified_transaction_set" where
  "update_descendant mempool alreadyAdded it desc st =
     (if desc \<in> alreadyAdded then st
      else (fst st + 1,
            (case modified_find (snd st) desc of
               None \<Rightarrow>
                 modified_insert
                   (update_for_parent_inclusion mempool it (CTxMemPoolModifiedEntry_of mempool desc))
                   (snd st)
             | Some mit \<Rightarrow>
                 modified_modify desc (update_for_parent_inclusion mempool it) (snd st))))"

definition UpdatePackagesForAdded ::
  "'h::{finite, linorder} CTxMemPool \<Rightarrow> 'h set \<Rightarrow> 'h indexed_modified_transaction_set
     \<Rightarrow> int \<times> 'h indexed_modified_transaction_set" where
  "UpdatePackagesForAdded mempool alreadyAdded mapModified =
     fold (\<lambda>it. fold (update_descendant mempool alreadyAdded it)
                  (sorted_list_of_set (CalculateDescendants mempool it)))
       (sorted_list_of_set alreadyAdded) (0, mapModified)"

definition SkipMapTxEntry ::
  "'h BlockAssembler \<Rightarrow> 'h \<Rightarrow> 'h indexed_modified_transaction_set \<Rightarrow> 'h set \<Rightarrow> bool" where
  "SkipMapTxEntry a it mapModified failedTx_set =
     (modified_count mapModified it \<or> it \<in> inBlock a \<or> it \<in> failedTx_set)"

text \<open>
  Modelled from the spec: \<open>CompareTxIterByAncestorCount\<close> is declared in miner.h, which is
  not under src/. The spec sorts the package by ancestor count ascending and leaves the
  order of entries with equal counts open ("ties any"); the rank \<open>tie\<close> decides it.
  \<open>SortForBlock\<close> (lines 296-305) copies the set into a vector and sorts it.
\<close>

definition SortForBlock ::
  "'h::{finite, linorder} CTxMemPool \<Rightarrow> ('h \<Rightarrow> nat) \<Rightarrow> 'h set \<Rightarrow> 'h list" where
  "SortForBlock mempool tie package =
     sort_key (\<lambda>it. (GetCountWithAncestors mempool it, tie it)) (sorted_list_of_set package)"

subsection \<open>The selection loop: addPackageTxs (lines 317-445)\<close>

text \<open>The local variables of \<open>addPackageTxs\<close> and its two reference parameters.\<close>

record 'h addPackageTxs_locals =
  mi :: "'h list"
  mapModifiedTx :: "'h indexed_modified_transaction_set"
  failedTx :: "'h set"
  nConsecutiveFailed :: int
  nPackagesSelected :: int
  nDescendantsUpdated :: int

text \<open>
  Lines 349-371: which transaction to evaluate. The result is \<open>iter\<close>, the entry \<open>modit\<close>
  points to when \<open>fUsingModified\<close> is set (\<open>None\<close> when it is not), and the locals with
  \<open>mi\<close> advanced when the entry of \<open>mapTx\<close> was taken. The loop runs only while \<open>mi\<close> is not
  at the end or \<open>mapModifiedTx\<close> is not empty, so the first case has an entry to take; on an
  empty overlay the model answers \<open>None\<close> there.
\<close>

definition select_candidate ::
  "'h CTxMemPool \<Rightarrow> 'h addPackageTxs_locals
     \<Rightarrow> ('h \<times> 'h CTxMemPoolModifiedEntry option \<times> 'h addPackageTxs_locals) option" where
  "select_candidate mempool l =
     (case mi l of
        [] \<Rightarrow>
          (case modified_begin mempool (mapModifiedTx l) of
             None \<Rightarrow> None
           | Some modit \<Rightarrow> Some (iter modit, Some modit, l))
      | it # rest \<Rightarrow>
          (case modified_begin mempool (mapModifiedTx l) of
             None \<Rightarrow> Some (it, None, l\<lparr>mi := rest\<rparr>)
           | Some modit \<Rightarrow>
               if CompareTxMemPoolEntryByAncestorFee mempool modit
                    (CTxMemPoolModifiedEntry_of mempool it)
               then Some (iter modit, Some modit, l)
               else Some (it, None, l\<lparr>mi := rest\<rparr>)))"

text \<open>
  Lines 377-384: the size, the fees and the sig-op cost of the package under evaluation,
  from the overlay when \<open>fUsingModified\<close> is set and from the pool entry otherwise.
\<close>

definition package_of ::
  "'h CTxMemPool \<Rightarrow> 'h \<Rightarrow> 'h CTxMemPoolModifiedEntry option \<Rightarrow> int \<times> int \<times> int" where
  "package_of mempool it modit =
     (case modit of
        None \<Rightarrow> (GetSizeWithAncestors mempool it, GetModFeesWithAncestors mempool it,
                 GetSigOpCostWithAncestors mempool it)
      | Some m \<Rightarrow> (nSizeWithAncestors m, nModFeesWithAncestors m, nSigOpCostWithAncestors m))"

text \<open>
  The failure branches (lines 392-398 and 420-423): an entry that came from the overlay is
  erased from it and remembered in \<open>failedTx\<close>.
\<close>

definition drop_failed ::
  "'h \<Rightarrow> 'h CTxMemPoolModifiedEntry option \<Rightarrow> 'h addPackageTxs_locals \<Rightarrow> 'h addPackageTxs_locals"
where
  "drop_failed it modit l =
     (case modit of
        None \<Rightarrow> l
      | Some m \<Rightarrow> l\<lparr>mapModifiedTx := modified_erase it (mapModifiedTx l),
                    failedTx := insert it (failedTx l)\<rparr>)"

text \<open>
  Lines 427-443: the package goes into the block. Each sorted entry is added and erased
  from the overlay, then the descendants of the package are updated.
\<close>

definition add_sorted ::
  "'h CTxMemPool \<Rightarrow> 'h list \<Rightarrow> 'h BlockAssembler \<times> 'h indexed_modified_transaction_set
     \<Rightarrow> 'h BlockAssembler \<times> 'h indexed_modified_transaction_set" where
  "add_sorted mempool sortedEntries st =
     fold (\<lambda>it (a, mapModified). (AddToBlock mempool it a, modified_erase it mapModified))
       sortedEntries st"

definition commit_package ::
  "'h::{finite, linorder} CTxMemPool \<Rightarrow> ('h \<Rightarrow> nat) \<Rightarrow> 'h set \<Rightarrow> 'h BlockAssembler
     \<Rightarrow> 'h addPackageTxs_locals \<Rightarrow> 'h BlockAssembler \<times> 'h addPackageTxs_locals" where
  "commit_package mempool tie ancestors a l =
     (let added = add_sorted mempool (SortForBlock mempool tie ancestors) (a, mapModifiedTx l);
          updated = UpdatePackagesForAdded mempool ancestors (snd added)
      in (fst added,
          l\<lparr>nConsecutiveFailed := 0,
            mapModifiedTx := snd updated,
            nPackagesSelected := nPackagesSelected l + 1,
            nDescendantsUpdated := nDescendantsUpdated l + fst updated\<rparr>))"

text \<open>
  One pass through the body of the \<open>while\<close> loop. \<open>Continue\<close> is the end of the body or a
  \<open>continue\<close>, \<open>Return\<close> the \<open>return\<close> of line 388, \<open>Break\<close> the \<open>break\<close> of line 405, and
  \<open>AssertFailed\<close> the abort of \<open>assert(!inBlock.count(iter))\<close>.
\<close>

datatype 'h loop_outcome =
    Continue "'h BlockAssembler" "'h addPackageTxs_locals"
  | Return "'h BlockAssembler" "'h addPackageTxs_locals"
  | Break "'h BlockAssembler" "'h addPackageTxs_locals"
  | AssertFailed

definition evaluate_candidate ::
  "'h::{finite, linorder} CTxMemPool \<Rightarrow> consensus_limits \<Rightarrow> ('h \<Rightarrow> nat) \<Rightarrow> 'h BlockAssembler
     \<Rightarrow> 'h \<Rightarrow> 'h CTxMemPoolModifiedEntry option \<Rightarrow> 'h addPackageTxs_locals \<Rightarrow> 'h loop_outcome"
where
  "evaluate_candidate mempool limits tie a it modit l =
     (case package_of mempool it modit of (packageSize, packageFees, packageSigOpsCost) \<Rightarrow>
        if packageFees < blockMinFeeRate a packageSize then Return a l
        else if \<not> TestPackage limits a packageSize packageSigOpsCost then
          (let l' = (drop_failed it modit l)
                      \<lparr>nConsecutiveFailed := nConsecutiveFailed l + 1\<rparr>
           in if nConsecutiveFailed l' > 1000
                 \<and> nBlockWeight a > word_of_int (nBlockMaxWeight a - 4000)
              then Break a l' else Continue a l')
        else
          (let ancestors =
                 insert it (onlyUnconfirmed a (CalculateMemPoolAncestors mempool it))
           in if \<not> TestPackageTransactions mempool a ancestors
              then Continue a (drop_failed it modit l)
              else (case commit_package mempool tie ancestors a l of
                      (a', l') \<Rightarrow> Continue a' l')))"

definition loop_body ::
  "'h::{finite, linorder} CTxMemPool \<Rightarrow> consensus_limits \<Rightarrow> ('h \<Rightarrow> nat) \<Rightarrow> 'h BlockAssembler
     \<Rightarrow> 'h addPackageTxs_locals \<Rightarrow> 'h loop_outcome" where
  "loop_body mempool limits tie a l =
     (if mi l \<noteq> [] \<and> SkipMapTxEntry a (hd (mi l)) (mapModifiedTx l) (failedTx l)
      then Continue a (l\<lparr>mi := tl (mi l)\<rparr>)
      else
        (case select_candidate mempool l of
           None \<Rightarrow> AssertFailed
         | Some (it, modit, l') \<Rightarrow>
             if it \<in> inBlock a then AssertFailed
             else evaluate_candidate mempool limits tie a it modit l'))"

datatype error = AssertionFailed | TestBlockValidityFailed

function addPackageTxs_loop ::
  "'h::{finite, linorder} CTxMemPool \<Rightarrow> consensus_limits \<Rightarrow> ('h \<Rightarrow> nat) \<Rightarrow> 'h BlockAssembler
     \<Rightarrow> 'h addPackageTxs_locals \<Rightarrow> error + 'h BlockAssembler \<times> 'h addPackageTxs_locals" where
  "addPackageTxs_loop mempool limits tie a l =
     (if mi l = [] \<and> mapModifiedTx l = [] then Inr (a, l)
      else
        (case loop_body mempool limits tie a l of
           Continue a' l' \<Rightarrow> addPackageTxs_loop mempool limits tie a' l'
         | Return a' l' \<Rightarrow> Inr (a', l')
         | Break a' l' \<Rightarrow> Inr (a', l')
         | AssertFailed \<Rightarrow> Inl AssertionFailed))"
  by pat_completeness auto

lemma best_by_in: "best_by prior b xs \<in> insert b (set xs)"
  by (induction xs arbitrary: b) auto

lemma modified_begin_in:
  "modified_begin mempool mapModified = Some m \<Longrightarrow> m \<in> set mapModified"
  using best_by_in [of "CompareTxMemPoolEntryByAncestorFee mempool"]
  by (auto simp: modified_begin_def split: list.splits)

lemma modified_begin_None:
  "modified_begin mempool mapModified = None \<longleftrightarrow> mapModified = []"
  by (simp add: modified_begin_def split: list.splits)

lemma length_modified_erase_less:
  "m \<in> set mapModified \<Longrightarrow> length (modified_erase (iter m) mapModified) < length mapModified"
  unfolding modified_erase_def
  by (rule length_filter_less [where x = m]) simp_all

lemma length_modified_erase_le:
  "length (modified_erase h mapModified) \<le> length mapModified"
  by (simp add: modified_erase_def)

lemma add_sorted_Nil: "add_sorted mempool [] st = st"
  by (simp add: add_sorted_def)

lemma add_sorted_Cons:
  "add_sorted mempool (it # xs) (a, mapModified) =
     add_sorted mempool xs (AddToBlock mempool it a, modified_erase it mapModified)"
  by (simp add: add_sorted_def)

lemma inBlock_add_sorted:
  "inBlock (fst (add_sorted mempool xs (a, mapModified))) = inBlock a \<union> set xs"
  by (induction xs arbitrary: a mapModified) (auto simp: add_sorted_Nil add_sorted_Cons AddToBlock_def)

lemma set_SortForBlock: "set (SortForBlock mempool tie package) = package"
  by (simp add: SortForBlock_def)

lemma inBlock_commit_package:
  "inBlock (fst (commit_package mempool tie ancestors a l)) = inBlock a \<union> ancestors"
  by (simp add: commit_package_def Let_def inBlock_add_sorted set_SortForBlock)

text \<open>
  The loop ends: a pass that continues either puts a new transaction into the block, or
  leaves the block alone and shortens the walk of \<open>mapTx\<close> or the overlay.
\<close>

definition loop_measure :: "'h::{finite, linorder} BlockAssembler \<Rightarrow> 'h addPackageTxs_locals \<Rightarrow> nat \<times> nat" where
  "loop_measure a l = (card (- inBlock a), length (mi l) + length (mapModifiedTx l))"

lemma select_candidate_cases:
  assumes "select_candidate mempool l = Some (it, modit, l')"
  shows "(modit = None \<and> mi l \<noteq> [] \<and> it = hd (mi l) \<and> l' = l\<lparr>mi := tl (mi l)\<rparr>)
       \<or> (\<exists>m. modit = Some m \<and> m \<in> set (mapModifiedTx l) \<and> it = iter m \<and> l' = l)"
proof (cases "modified_begin mempool (mapModifiedTx l)")
  case None
  with assms show ?thesis
    by (cases "mi l") (auto simp: select_candidate_def)
next
  case (Some m)
  then have m: "m \<in> set (mapModifiedTx l)" by (rule modified_begin_in)
  show ?thesis
  proof (cases "mi l")
    case Nil
    with assms Some have "it = iter m \<and> modit = Some m \<and> l' = l"
      by (simp add: select_candidate_def)
    with m show ?thesis by blast
  next
    case (Cons x rest)
    show ?thesis
    proof (cases "CompareTxMemPoolEntryByAncestorFee mempool m (CTxMemPoolModifiedEntry_of mempool x)")
      case True
      with assms Some Cons have "it = iter m \<and> modit = Some m \<and> l' = l"
        by (simp add: select_candidate_def)
      with m show ?thesis by blast
    next
      case False
      with assms Some Cons have "modit = None \<and> it = x \<and> l' = l\<lparr>mi := rest\<rparr>"
        by (simp add: select_candidate_def)
      with Cons show ?thesis by simp
    qed
  qed
qed

lemma drop_failed_measure:
  assumes "select_candidate mempool l = Some (it, modit, l')"
  shows "length (mi (drop_failed it modit l')) + length (mapModifiedTx (drop_failed it modit l'))
          < length (mi l) + length (mapModifiedTx l)"
  using select_candidate_cases [OF assms]
proof (elim disjE conjE exE)
  assume "modit = None" "mi l \<noteq> []" "l' = l\<lparr>mi := tl (mi l)\<rparr>"
  then show ?thesis by (cases "mi l") (simp_all add: drop_failed_def)
next
  fix m assume "modit = Some m" "m \<in> set (mapModifiedTx l)" "it = iter m" "l' = l"
  then show ?thesis
    using length_modified_erase_less [of m "mapModifiedTx l"] by (simp add: drop_failed_def)
qed

lemma card_compl_insert_less:
  fixes I :: "'h::finite set"
  assumes "it \<notin> I"
  shows "card (- (I \<union> insert it A)) < card (- I)"
proof (rule psubset_card_mono)
  show "finite (- I)" by simp
  show "- (I \<union> insert it A) \<subset> - I" using assms by auto
qed

lemma evaluate_candidate_decreases:
  assumes "select_candidate mempool l = Some (it, modit, l1)"
    and "it \<notin> inBlock a"
    and "evaluate_candidate mempool limits tie a it modit l1 = Continue a' l'"
  shows "(loop_measure a' l', loop_measure a l) \<in> less_than <*lex*> less_than"
proof -
  obtain ps pf pc where pk: "package_of mempool it modit = (ps, pf, pc)"
    by (cases "package_of mempool it modit") auto
  let ?anc = "insert it (onlyUnconfirmed a (CalculateMemPoolAncestors mempool it))"
  note dm = drop_failed_measure [OF assms(1)]
  consider (budget) "a' = a" "l' = (drop_failed it modit l1)\<lparr>nConsecutiveFailed := nConsecutiveFailed l1 + 1\<rparr>"
    | (final) "a' = a" "l' = drop_failed it modit l1"
    | (commit) "(a', l') = commit_package mempool tie ?anc a l1"
    using assms(3) unfolding evaluate_candidate_def pk
    by (auto simp: Let_def split: if_splits prod.splits)
  then show ?thesis
  proof cases
    case budget
    then show ?thesis using dm by (simp add: loop_measure_def)
  next
    case final
    then show ?thesis using dm by (simp add: loop_measure_def)
  next
    case commit
    then have "inBlock a' = inBlock a \<union> ?anc"
      using inBlock_commit_package [of mempool tie ?anc a l1] by (metis fst_conv)
    then have "card (- inBlock a') < card (- inBlock a)"
      using card_compl_insert_less [OF assms(2)] by simp
    then show ?thesis by (simp add: loop_measure_def)
  qed
qed

lemma loop_body_decreases:
  assumes "\<not> (mi l = [] \<and> mapModifiedTx l = [])"
    and "loop_body mempool limits tie a l = Continue a' l'"
  shows "(loop_measure a' l', loop_measure a l) \<in> less_than <*lex*> less_than"
proof (cases "mi l \<noteq> [] \<and> SkipMapTxEntry a (hd (mi l)) (mapModifiedTx l) (failedTx l)")
  case True
  then have "a' = a" "l' = l\<lparr>mi := tl (mi l)\<rparr>"
    using assms(2) by (simp_all add: loop_body_def)
  then show ?thesis using True by (cases "mi l") (simp_all add: loop_measure_def)
next
  case False
  then obtain it modit l1 where sel: "select_candidate mempool l = Some (it, modit, l1)"
    and nin: "it \<notin> inBlock a"
    and ev: "evaluate_candidate mempool limits tie a it modit l1 = Continue a' l'"
    using assms(2) unfolding loop_body_def
    by (auto split: option.splits if_splits prod.splits)
  show ?thesis by (rule evaluate_candidate_decreases [OF sel nin ev])
qed

termination addPackageTxs_loop
proof (relation "inv_image (less_than <*lex*> less_than)
         (\<lambda>(mempool, limits, tie, a, l). loop_measure a l)")
  show "wf (inv_image (less_than <*lex*> less_than)
         (\<lambda>(mempool :: 'h::{finite, linorder} CTxMemPool, limits :: consensus_limits, tie :: 'h \<Rightarrow> nat, a, l). loop_measure a l))"
    by (intro wf_inv_image wf_lex_prod wf_less_than)
next
  fix mempool :: "'h::{finite, linorder} CTxMemPool" and limits :: consensus_limits and tie :: "'h \<Rightarrow> nat"
    and a a' :: "'h BlockAssembler" and l l' :: "'h addPackageTxs_locals"
  assume "\<not> (mi l = [] \<and> mapModifiedTx l = [])"
    and "loop_body mempool limits tie a l = Continue a' l'"
  then show "((mempool, limits, tie, a', l'), (mempool, limits, tie, a, l))
     \<in> inv_image (less_than <*lex*> less_than)
         (\<lambda>(mempool, limits, tie, a, l). loop_measure a l)"
    using loop_body_decreases [of l mempool limits tie a a' l'] by simp
qed


declare addPackageTxs_loop.simps [simp del]

definition addPackageTxs ::
  "'h::{finite, linorder} CTxMemPool \<Rightarrow> consensus_limits \<Rightarrow> ('h \<Rightarrow> nat) \<Rightarrow> 'h BlockAssembler
     \<Rightarrow> int \<Rightarrow> int \<Rightarrow> error + 'h BlockAssembler \<times> 'h addPackageTxs_locals" where
  "addPackageTxs mempool limits tie a nPackagesSelected0 nDescendantsUpdated0 =
     addPackageTxs_loop mempool limits tie a
       \<lparr>mi = mapTx_ancestor_score mempool,
        mapModifiedTx = snd (UpdatePackagesForAdded mempool (inBlock a) []),
        failedTx = {},
        nConsecutiveFailed = 0,
        nPackagesSelected = nPackagesSelected0,
        nDescendantsUpdated = nDescendantsUpdated0\<rparr>"

subsection \<open>What UpdatePackagesForAdded does to the overlay\<close>

text \<open>
  Two notions for stating it. \<open>view mempool mapModified d\<close> is the entry the overlay holds
  for \<open>d\<close>, or the fresh entry (the cached aggregates of the pool) when it holds none.
  \<open>dec_by mempool X e\<close> is \<open>e\<close> with the individual size, modified fee and sig-op cost of
  every transaction of \<open>X\<close> taken off.
\<close>

definition view :: "'h CTxMemPool \<Rightarrow> 'h indexed_modified_transaction_set \<Rightarrow> 'h \<Rightarrow> 'h CTxMemPoolModifiedEntry" where
  "view mempool mapModified d =
     (case modified_find mapModified d of
        None \<Rightarrow> CTxMemPoolModifiedEntry_of mempool d
      | Some e \<Rightarrow> e)"

definition dec_by :: "'h CTxMemPool \<Rightarrow> 'h set \<Rightarrow> 'h CTxMemPoolModifiedEntry \<Rightarrow> 'h CTxMemPoolModifiedEntry" where
  "dec_by mempool X e =
     e\<lparr>nSizeWithAncestors := nSizeWithAncestors e - sum (GetTxSize mempool) X,
       nModFeesWithAncestors := nModFeesWithAncestors e - sum (GetModifiedFee mempool) X,
       nSigOpCostWithAncestors := nSigOpCostWithAncestors e - sum (GetSigOpCost mempool) X\<rparr>"

lemma iter_update_for_parent_inclusion [simp]:
  "iter (update_for_parent_inclusion mempool it e) = iter e"
  by (simp add: update_for_parent_inclusion_def)

lemma iter_dec_by [simp]: "iter (dec_by mempool X e) = iter e"
  by (simp add: dec_by_def)

lemma dec_by_empty [simp]: "dec_by mempool {} e = e"
  by (simp add: dec_by_def)

lemma dec_by_insert:
  "finite X \<Longrightarrow> x \<notin> X \<Longrightarrow>
     dec_by mempool X (update_for_parent_inclusion mempool x e) = dec_by mempool (insert x X) e"
  by (simp add: dec_by_def update_for_parent_inclusion_def)

lemma dec_by_union:
  "finite X \<Longrightarrow> finite Y \<Longrightarrow> X \<inter> Y = {} \<Longrightarrow>
     dec_by mempool Y (dec_by mempool X e) = dec_by mempool (X \<union> Y) e"
  by (simp add: dec_by_def sum.union_disjoint)

lemma modified_find_Some:
  "modified_find mapModified h = Some e \<Longrightarrow> iter e = h \<and> e \<in> set mapModified"
  unfolding modified_find_def by (induction mapModified) (auto split: if_splits)

lemma modified_find_None:
  "modified_find mapModified h = None \<longleftrightarrow> h \<notin> iter ` set mapModified"
  unfolding modified_find_def by (induction mapModified) auto

lemma modified_find_distinct:
  "distinct (map iter mapModified) \<Longrightarrow> e \<in> set mapModified \<Longrightarrow>
     modified_find mapModified (iter e) = Some e"
  unfolding modified_find_def by (induction mapModified) (auto simp: image_iff)

lemma modified_find_append:
  "modified_find (xs @ ys) h =
     (case modified_find xs h of None \<Rightarrow> modified_find ys h | Some e \<Rightarrow> Some e)"
  unfolding modified_find_def by (induction xs) auto

lemma modified_find_insert:
  "modified_find (modified_insert e mapModified) h =
     (if modified_find mapModified (iter e) = None \<and> h = iter e then Some e
      else modified_find mapModified h)"
  by (auto simp: modified_insert_def modified_count_def modified_find_append split: option.splits)
     (simp_all add: modified_find_def)

lemma modified_find_modify:
  assumes "\<And>e. iter (f e) = iter e"
  shows "modified_find (modified_modify h f mapModified) h' =
     (if h' = h then map_option f (modified_find mapModified h)
      else modified_find mapModified h')"
  unfolding modified_find_def modified_modify_def
  by (induction mapModified) (auto simp: assms)

lemma modified_find_erase:
  "modified_find (modified_erase h mapModified) h' =
     (if h' = h then None else modified_find mapModified h')"
  unfolding modified_find_def modified_erase_def
  by (induction mapModified) auto

lemma distinct_modified_erase:
  "distinct (map iter mapModified) \<Longrightarrow> distinct (map iter (modified_erase h mapModified))"
  by (simp add: modified_erase_def distinct_map_filter)

lemma distinct_modified_modify:
  assumes "\<And>e. iter (f e) = iter e"
  shows "distinct (map iter mapModified) \<Longrightarrow> distinct (map iter (modified_modify h f mapModified))"
proof -
  have "map iter (modified_modify h f mapModified) = map iter mapModified"
    by (simp add: modified_modify_def assms cong: map_cong)
  then show "distinct (map iter mapModified) \<Longrightarrow> ?thesis" by simp
qed

lemma distinct_modified_insert:
  "distinct (map iter mapModified) \<Longrightarrow> distinct (map iter (modified_insert e mapModified))"
  by (auto simp: modified_insert_def modified_count_def modified_find_None)

lemma distinct_update_descendant:
  "distinct (map iter (snd st)) \<Longrightarrow>
     distinct (map iter (snd (update_descendant mempool alreadyAdded it desc st)))"
  by (auto simp: update_descendant_def distinct_modified_insert distinct_modified_modify
      split: option.splits)

lemma view_update_descendant:
  "view mempool (snd (update_descendant mempool alreadyAdded it desc st)) d =
     (if d = desc \<and> desc \<notin> alreadyAdded
      then update_for_parent_inclusion mempool it (view mempool (snd st) d)
      else view mempool (snd st) d)"
  by (auto simp: update_descendant_def view_def modified_find_insert modified_find_modify
      CTxMemPoolModifiedEntry_of_def update_for_parent_inclusion_def split: option.splits)

lemma present_update_descendant:
  "modified_count (snd (update_descendant mempool alreadyAdded it desc st)) d \<longleftrightarrow>
     modified_count (snd st) d \<or> (d = desc \<and> desc \<notin> alreadyAdded)"
  by (auto simp: modified_count_def update_descendant_def modified_find_insert modified_find_modify
      CTxMemPoolModifiedEntry_of_def update_for_parent_inclusion_def split: option.splits)


lemma view_inner_fold:
  "distinct ds \<Longrightarrow>
   view mempool (snd (fold (update_descendant mempool alreadyAdded it) ds st)) d =
     (if d \<in> set ds \<and> d \<notin> alreadyAdded
      then update_for_parent_inclusion mempool it (view mempool (snd st) d)
      else view mempool (snd st) d)"
proof (induction ds arbitrary: st)
  case Nil
  then show ?case by simp
next
  case (Cons x ds)
  then have IH: "view mempool (snd (fold (update_descendant mempool alreadyAdded it) ds
                   (update_descendant mempool alreadyAdded it x st))) d =
     (if d \<in> set ds \<and> d \<notin> alreadyAdded
      then update_for_parent_inclusion mempool it
             (view mempool (snd (update_descendant mempool alreadyAdded it x st)) d)
      else view mempool (snd (update_descendant mempool alreadyAdded it x st)) d)"
    by simp
  from Cons.prems have "x \<notin> set ds" by simp
  then show ?case
    by (auto simp: IH view_update_descendant)
qed

lemma present_inner_fold:
  "modified_count (snd (fold (update_descendant mempool alreadyAdded it) ds st)) d \<longleftrightarrow>
     modified_count (snd st) d \<or> (d \<in> set ds \<and> d \<notin> alreadyAdded)"
proof (induction ds arbitrary: st)
  case Nil
  then show ?case by simp
next
  case (Cons x ds)
  show ?case
    unfolding fold_Cons comp_apply Cons.IH present_update_descendant by auto
qed

lemma distinct_inner_fold:
  "distinct (map iter (snd st)) \<Longrightarrow>
     distinct (map iter (snd (fold (update_descendant mempool alreadyAdded it) ds st)))"
  by (induction ds arbitrary: st) (simp_all add: distinct_update_descendant)

text \<open>The inner loop of \<open>UpdatePackagesForAdded\<close>, for one added entry.\<close>

definition update_descendants_of ::
  "'h::{finite, linorder} CTxMemPool \<Rightarrow> 'h set \<Rightarrow> 'h
     \<Rightarrow> int \<times> 'h indexed_modified_transaction_set \<Rightarrow> int \<times> 'h indexed_modified_transaction_set"
where
  "update_descendants_of mempool alreadyAdded it =
     fold (update_descendant mempool alreadyAdded it)
       (sorted_list_of_set (CalculateDescendants mempool it))"

lemma view_update_descendants_of:
  "view mempool (snd (update_descendants_of mempool alreadyAdded it st)) d =
     (if d \<in> CalculateDescendants mempool it \<and> d \<notin> alreadyAdded
      then update_for_parent_inclusion mempool it (view mempool (snd st) d)
      else view mempool (snd st) d)"
  by (simp add: update_descendants_of_def view_inner_fold)

lemma present_update_descendants_of:
  "modified_count (snd (update_descendants_of mempool alreadyAdded it st)) d \<longleftrightarrow>
     modified_count (snd st) d
     \<or> (d \<in> CalculateDescendants mempool it \<and> d \<notin> alreadyAdded)"
  by (simp add: update_descendants_of_def present_inner_fold)

lemma distinct_update_descendants_of:
  "distinct (map iter (snd st)) \<Longrightarrow>
     distinct (map iter (snd (update_descendants_of mempool alreadyAdded it st)))"
  by (simp add: update_descendants_of_def distinct_inner_fold)

lemma view_outer_fold:
  "distinct xs \<Longrightarrow>
   view mempool (snd (fold (update_descendants_of mempool alreadyAdded) xs st)) d =
     (if d \<in> alreadyAdded then view mempool (snd st) d
      else dec_by mempool {x \<in> set xs. d \<in> CalculateDescendants mempool x}
             (view mempool (snd st) d))"
proof (induction xs arbitrary: st)
  case Nil
  then show ?case by simp
next
  case (Cons x xs)
  let ?X = "{y \<in> set xs. d \<in> CalculateDescendants mempool y}"
  have fin: "finite ?X" by simp
  have nx: "x \<notin> ?X" using Cons.prems by simp
  have IH: "view mempool (snd (fold (update_descendants_of mempool alreadyAdded) xs
              (update_descendants_of mempool alreadyAdded x st))) d =
     (if d \<in> alreadyAdded
      then view mempool (snd (update_descendants_of mempool alreadyAdded x st)) d
      else dec_by mempool ?X
             (view mempool (snd (update_descendants_of mempool alreadyAdded x st)) d))"
    using Cons by simp
  show ?case
  proof (cases "d \<in> alreadyAdded")
    case True
    then show ?thesis by (simp add: IH view_update_descendants_of)
  next
    case False
    show ?thesis
    proof (cases "d \<in> CalculateDescendants mempool x")
      case True
      then have "{y \<in> set (x # xs). d \<in> CalculateDescendants mempool y} = insert x ?X"
        by auto
      then show ?thesis
        using False True by (simp add: IH view_update_descendants_of dec_by_insert [OF fin nx])
    next
      case nd: False
      then have "{y \<in> set (x # xs). d \<in> CalculateDescendants mempool y} = ?X"
        by auto
      then show ?thesis
        using False nd by (simp add: IH view_update_descendants_of)
    qed
  qed
qed

lemma present_outer_fold:
  "modified_count (snd (fold (update_descendants_of mempool alreadyAdded) xs st)) d \<longleftrightarrow>
     modified_count (snd st) d
     \<or> (d \<notin> alreadyAdded \<and> (\<exists>x \<in> set xs. d \<in> CalculateDescendants mempool x))"
proof (induction xs arbitrary: st)
  case Nil
  then show ?case by simp
next
  case (Cons x xs)
  show ?case
    unfolding fold_Cons comp_apply Cons.IH present_update_descendants_of by auto
qed

lemma distinct_outer_fold:
  "distinct (map iter (snd st)) \<Longrightarrow>
     distinct (map iter (snd (fold (update_descendants_of mempool alreadyAdded) xs st)))"
  by (induction xs arbitrary: st) (simp_all add: distinct_update_descendants_of)

lemma UpdatePackagesForAdded_fold:
  "UpdatePackagesForAdded mempool alreadyAdded mapModified =
     fold (update_descendants_of mempool alreadyAdded) (sorted_list_of_set alreadyAdded)
       (0, mapModified)"
  unfolding UpdatePackagesForAdded_def update_descendants_of_def ..

lemma view_UpdatePackagesForAdded:
  "view mempool (snd (UpdatePackagesForAdded mempool alreadyAdded mapModified)) d =
     (if d \<in> alreadyAdded then view mempool mapModified d
      else dec_by mempool {x \<in> alreadyAdded. d \<in> CalculateDescendants mempool x}
             (view mempool mapModified d))"
  by (simp add: UpdatePackagesForAdded_fold view_outer_fold)

lemma present_UpdatePackagesForAdded:
  "modified_count (snd (UpdatePackagesForAdded mempool alreadyAdded mapModified)) d \<longleftrightarrow>
     modified_count mapModified d
     \<or> (d \<notin> alreadyAdded \<and> (\<exists>x \<in> alreadyAdded. d \<in> CalculateDescendants mempool x))"
  by (simp add: UpdatePackagesForAdded_fold present_outer_fold)

lemma distinct_UpdatePackagesForAdded:
  "distinct (map iter mapModified) \<Longrightarrow>
     distinct (map iter (snd (UpdatePackagesForAdded mempool alreadyAdded mapModified)))"
  by (simp add: UpdatePackagesForAdded_fold distinct_outer_fold)

lemma snd_add_sorted:
  "snd (add_sorted mempool xs (a, mapModified)) = filter (\<lambda>e. iter e \<notin> set xs) mapModified"
proof (induction xs arbitrary: a mapModified)
  case Nil
  then show ?case by (simp add: add_sorted_Nil)
next
  case (Cons x xs)
  show ?case
    by (simp add: add_sorted_Cons Cons.IH modified_erase_def conj_commute)
qed

lemma modified_find_filter:
  "modified_find (filter (\<lambda>e. iter e \<notin> S) mapModified) d =
     (if d \<in> S then None else modified_find mapModified d)"
  unfolding modified_find_def by (induction mapModified) auto

lemma view_filter:
  "view mempool (filter (\<lambda>e. iter e \<notin> S) mapModified) d =
     (if d \<in> S then CTxMemPoolModifiedEntry_of mempool d else view mempool mapModified d)"
  by (simp add: view_def modified_find_filter)


subsection \<open>Reasoning about the loop\<close>

lemma fst_add_sorted:
  "fst (add_sorted mempool xs (a, mapModified)) =
     a\<lparr>pblocktemplate :=
         (pblocktemplate a)
           \<lparr>block := (block (pblocktemplate a))
                       \<lparr>vtx := vtx (block (pblocktemplate a)) @ map MempoolTx xs\<rparr>,
            vTxFees := vTxFees (pblocktemplate a) @ map (GetFee mempool) xs,
            vTxSigOpsCost := vTxSigOpsCost (pblocktemplate a) @ map (GetSigOpCost mempool) xs\<rparr>,
       nBlockWeight :=
         nBlockWeight a + sum_list (map (\<lambda>it. word_of_int (GetTxWeight mempool it)) xs),
       nBlockTx := nBlockTx a + of_nat (length xs),
       nBlockSigOpsCost :=
         nBlockSigOpsCost a + sum_list (map (\<lambda>it. word_of_int (GetSigOpCost mempool it)) xs),
       nFees := nFees a + sum_list (map (GetFee mempool) xs),
       inBlock := inBlock a \<union> set xs\<rparr>"
proof (induction xs arbitrary: a mapModified)
  case Nil
  then show ?case by (simp add: add_sorted_Nil)
next
  case (Cons x xs)
  show ?case
    by (simp add: add_sorted_Cons Cons.IH AddToBlock_def algebra_simps)
qed

lemma distinct_SortForBlock: "distinct (SortForBlock mempool tie package)"
  by (simp add: SortForBlock_def)

lemma sum_list_SortForBlock:
  "sum_list (map f (SortForBlock mempool tie package)) = sum f package"
proof -
  have "sum_list (map f (SortForBlock mempool tie package))
          = sum f (set (SortForBlock mempool tie package))"
    by (rule sum_list_distinct_conv_sum_set [OF distinct_SortForBlock])
  then show ?thesis by (simp add: set_SortForBlock)
qed

text \<open>The state a pass of the loop body leaves, when it does not abort.\<close>

fun outcome_state ::
  "'h loop_outcome \<Rightarrow> ('h BlockAssembler \<times> 'h addPackageTxs_locals) option" where
  "outcome_state (Continue a l) = Some (a, l)"
| "outcome_state (Return a l) = Some (a, l)"
| "outcome_state (Break a l) = Some (a, l)"
| "outcome_state AssertFailed = None"

lemma addPackageTxs_loop_invariant:
  assumes "addPackageTxs_loop mempool limits tie a l = Inr (a', l')"
    and "P a l"
    and step: "\<And>a l a2 l2. P a l \<Longrightarrow>
           outcome_state (loop_body mempool limits tie a l) = Some (a2, l2) \<Longrightarrow> P a2 l2"
  shows "P a' l'"
  using assms
proof (induction mempool limits tie a l rule: addPackageTxs_loop.induct)
  case (1 mempool limits tie a l)
  note step = "1.prems"(3)
  show ?case
  proof (cases "mi l = [] \<and> mapModifiedTx l = []")
    case True
    with "1.prems" show ?thesis
      by (simp add: addPackageTxs_loop.simps [of mempool limits tie a l])
  next
    case False
    show ?thesis
    proof (cases "loop_body mempool limits tie a l")
      case (Continue a2 l2)
      then have P2: "P a2 l2" using step [OF "1.prems"(2), of a2 l2] by simp
      have "addPackageTxs_loop mempool limits tie a2 l2 = Inr (a', l')"
        using "1.prems"(1) False Continue
        by (simp add: addPackageTxs_loop.simps [of mempool limits tie a l])
      then show ?thesis using "1.IH" [OF False Continue _ P2] step by blast
    next
      case (Return a2 l2)
      then have "P a2 l2" using step [OF "1.prems"(2), of a2 l2] by simp
      moreover have "(a2, l2) = (a', l')"
        using "1.prems"(1) False Return
        by (simp add: addPackageTxs_loop.simps [of mempool limits tie a l])
      ultimately show ?thesis by simp
    next
      case (Break a2 l2)
      then have "P a2 l2" using step [OF "1.prems"(2), of a2 l2] by simp
      moreover have "(a2, l2) = (a', l')"
        using "1.prems"(1) False Break
        by (simp add: addPackageTxs_loop.simps [of mempool limits tie a l])
      ultimately show ?thesis by simp
    next
      case AssertFailed
      with "1.prems"(1) False show ?thesis
        by (simp add: addPackageTxs_loop.simps [of mempool limits tie a l])
    qed
  qed
qed

lemma evaluate_candidate_cases:
  assumes "outcome_state (evaluate_candidate mempool limits tie a it modit l1) = Some (a2, l2)"
  shows "(a2 = a \<and> (mapModifiedTx l2 = mapModifiedTx l1
                    \<or> mapModifiedTx l2 = modified_erase it (mapModifiedTx l1)))
       \<or> (\<not> fst (snd (package_of mempool it modit))
              < blockMinFeeRate a (fst (package_of mempool it modit))
          \<and> TestPackage limits a (fst (package_of mempool it modit))
               (snd (snd (package_of mempool it modit)))
          \<and> TestPackageTransactions mempool a
               (insert it (onlyUnconfirmed a (CalculateMemPoolAncestors mempool it)))
          \<and> (a2, l2) = commit_package mempool tie
               (insert it (onlyUnconfirmed a (CalculateMemPoolAncestors mempool it))) a l1)"
proof -
  obtain ps pf pc where pk: "package_of mempool it modit = (ps, pf, pc)"
    by (cases "package_of mempool it modit") auto
  show ?thesis
    using assms unfolding evaluate_candidate_def pk
    by (cases modit) (auto simp: Let_def drop_failed_def split: if_splits prod.splits)
qed

lemma loop_body_cases:
  assumes "outcome_state (loop_body mempool limits tie a l) = Some (a2, l2)"
  shows "(a2 = a \<and> (\<exists>S. mapModifiedTx l2 = filter (\<lambda>e. iter e \<notin> S) (mapModifiedTx l)))
       \<or> (\<exists>it modit l1.
            select_candidate mempool l = Some (it, modit, l1)
          \<and> it \<notin> inBlock a
          \<and> \<not> fst (snd (package_of mempool it modit))
              < blockMinFeeRate a (fst (package_of mempool it modit))
          \<and> TestPackage limits a (fst (package_of mempool it modit))
               (snd (snd (package_of mempool it modit)))
          \<and> TestPackageTransactions mempool a
               (insert it (onlyUnconfirmed a (CalculateMemPoolAncestors mempool it)))
          \<and> (a2, l2) = commit_package mempool tie
               (insert it (onlyUnconfirmed a (CalculateMemPoolAncestors mempool it))) a l1)"
proof (cases "mi l \<noteq> [] \<and> SkipMapTxEntry a (hd (mi l)) (mapModifiedTx l) (failedTx l)")
  case True
  then have "a2 = a" "l2 = l\<lparr>mi := tl (mi l)\<rparr>"
    using assms by (simp_all add: loop_body_def)
  then have "a2 = a \<and> mapModifiedTx l2 = filter (\<lambda>e. iter e \<notin> {}) (mapModifiedTx l)"
    by simp
  then show ?thesis by blast
next
  case False
  then obtain it modit l1 where sel: "select_candidate mempool l = Some (it, modit, l1)"
    and nin: "it \<notin> inBlock a"
    and ev: "outcome_state (evaluate_candidate mempool limits tie a it modit l1) = Some (a2, l2)"
    using assms unfolding loop_body_def
    by (auto split: option.splits if_splits prod.splits)
  have M1: "mapModifiedTx l1 = mapModifiedTx l"
    using select_candidate_cases [OF sel] by auto
  from evaluate_candidate_cases [OF ev] show ?thesis
  proof (elim disjE conjE)
    assume "a2 = a" "mapModifiedTx l2 = mapModifiedTx l1"
    then have "a2 = a \<and> mapModifiedTx l2 = filter (\<lambda>e. iter e \<notin> {}) (mapModifiedTx l)"
      using M1 by simp
    then show ?thesis by blast
  next
    assume "a2 = a" "mapModifiedTx l2 = modified_erase it (mapModifiedTx l1)"
    then have "a2 = a \<and> mapModifiedTx l2 = filter (\<lambda>e. iter e \<notin> {it}) (mapModifiedTx l)"
      using M1 by (simp add: modified_erase_def)
    then show ?thesis by blast
  next
    assume "\<not> fst (snd (package_of mempool it modit))
              < blockMinFeeRate a (fst (package_of mempool it modit))"
      "TestPackage limits a (fst (package_of mempool it modit))
               (snd (snd (package_of mempool it modit)))"
      "TestPackageTransactions mempool a
               (insert it (onlyUnconfirmed a (CalculateMemPoolAncestors mempool it)))"
      "(a2, l2) = commit_package mempool tie
               (insert it (onlyUnconfirmed a (CalculateMemPoolAncestors mempool it))) a l1"
    with sel nin show ?thesis by blast
  qed
qed


subsection \<open>CreateNewBlock (lines 113-195) and UpdateTime (lines 54-67)\<close>

text \<open>
  What \<open>CreateNewBlock\<close> asks of the chain, of the arguments of the node and of validation;
  none of it is under src/. The tip is \<open>pindexPrev\<close>; \<open>GetNextWorkRequired\<close> is a function of
  the time of the header under construction; \<open>LOCKTIME_MEDIAN_TIME_PAST_flag\<close> is whether
  \<open>STANDARD_LOCKTIME_VERIFY_FLAGS\<close> has the bit \<open>LOCKTIME_MEDIAN_TIME_PAST\<close>;
  \<open>arg_blockversion\<close> is the argument \<open>-blockversion\<close>, when given. The clock is read once.
\<close>

record 'h ChainState =
  tip_nHeight :: int
  tip_GetBlockHash :: uint256
  tip_GetMedianTimePast :: int
  GetAdjustedTime :: int
  ComputeBlockVersion :: "32 word"
  MineBlocksOnDemand :: bool
  arg_blockversion :: "32 word option"
  LOCKTIME_MEDIAN_TIME_PAST_flag :: bool
  IsWitnessEnabled :: bool
  GetBlockSubsidy :: "int \<Rightarrow> int"
  GenerateCoinbaseCommitment :: "'h CBlock \<Rightarrow> uint8_t list"
  GetNextWorkRequired :: "uint32_t \<Rightarrow> uint32_t"
  fPowAllowMinDifficultyBlocks :: bool
  GetLegacySigOpCount :: "'h CTransactionRef \<Rightarrow> int"
  TestBlockValidity :: "'h CBlock \<Rightarrow> bool"

definition UpdateTime :: "'h ChainState \<Rightarrow> 'h CBlock \<Rightarrow> int \<times> 'h CBlock" where
  "UpdateTime chain pblock =
     (let nOldTime = uint (nTime pblock);
          nNewTime = max (tip_GetMedianTimePast chain + 1) (GetAdjustedTime chain);
          b1 = (if nOldTime < nNewTime then pblock\<lparr>nTime := word_of_int nNewTime\<rparr> else pblock);
          b2 = (if fPowAllowMinDifficultyBlocks chain
                then b1\<lparr>nBits := GetNextWorkRequired chain (nTime b1)\<rparr> else b1)
      in (nNewTime - nOldTime, b2))"

text \<open>
  The state of the assembler when \<open>CreateNewBlock\<close> calls \<open>addPackageTxs\<close> (lines 117-158):
  the block is reset, the template holds the placeholder coinbase with its two \<open>-1\<close>
  entries, and height, lock-time cutoff and witness flag are set. The chain has a tip (the
  assertion of line 132), and the template that \<open>new\<close> has just made is not null (line 121).
\<close>

definition CreateNewBlock_prelude ::
  "'h ChainState \<Rightarrow> 'h BlockAssembler \<Rightarrow> bool \<Rightarrow> 'h BlockAssembler" where
  "CreateNewBlock_prelude chain a0 fMineWitnessTx =
     (let pblock0 = (block new_CBlockTemplate)
            \<lparr>vtx := [NullTx],
             nVersion := (if MineBlocksOnDemand chain
                          then (case arg_blockversion chain of
                                  None \<Rightarrow> ComputeBlockVersion chain | Some v \<Rightarrow> v)
                          else ComputeBlockVersion chain),
             nTime := word_of_int (GetAdjustedTime chain)\<rparr>
      in (resetBlock a0)
           \<lparr>pblocktemplate :=
              new_CBlockTemplate\<lparr>block := pblock0, vTxFees := [- 1], vTxSigOpsCost := [- 1]\<rparr>,
            nHeight := tip_nHeight chain + 1,
            nLockTimeCutoff :=
              (if LOCKTIME_MEDIAN_TIME_PAST_flag chain then tip_GetMedianTimePast chain
               else uint (nTime pblock0)),
            fIncludeWitness := (IsWitnessEnabled chain \<and> fMineWitnessTx)\<rparr>)"

text \<open>
  Lines 165-194, after the selection: the coinbase replaces the placeholder, the header is
  filled in and the block is validated. The result is the template together with the
  assembler as the call leaves it. A failed \<open>TestBlockValidity\<close> throws, which is the
  error \<open>TestBlockValidityFailed\<close>. Of the coinbase the model keeps the first output, the
  one \<open>CreateNewBlock\<close> writes; the two global counters \<open>nLastBlockTx\<close> and
  \<open>nLastBlockWeight\<close> and the log lines are left out.
\<close>

definition CreateNewBlock_finish ::
  "'h ChainState \<Rightarrow> uint8_t list \<Rightarrow> 'h BlockAssembler
     \<Rightarrow> error + 'h CBlockTemplate \<times> 'h BlockAssembler" where
  "CreateNewBlock_finish chain scriptPubKeyIn a =
     (let t = pblocktemplate a;
          coinbaseTx = CoinbaseTx scriptPubKeyIn
                         (nFees a + GetBlockSubsidy chain (nHeight a)) (nHeight a);
          b1 = (block t)\<lparr>vtx := (vtx (block t))[0 := coinbaseTx]\<rparr>;
          t1 = t\<lparr>block := b1,
                 vchCoinbaseCommitment := GenerateCoinbaseCommitment chain b1,
                 vTxFees := (vTxFees t)[0 := - nFees a]\<rparr>;
          b2 = snd (UpdateTime chain (b1\<lparr>hashPrevBlock := tip_GetBlockHash chain\<rparr>));
          b3 = b2\<lparr>nBits := GetNextWorkRequired chain (nTime b2), nNonce := 0\<rparr>;
          t3 = t1\<lparr>block := b3,
                  vTxSigOpsCost :=
                    (vTxSigOpsCost t1)
                      [0 := WITNESS_SCALE_FACTOR * GetLegacySigOpCount chain (vtx b3 ! 0)]\<rparr>
      in if \<not> TestBlockValidity chain b3 then Inl TestBlockValidityFailed
         else Inr (t3, a\<lparr>pblocktemplate := t3\<rparr>))"

definition CreateNewBlock ::
  "'h::{finite, linorder} CTxMemPool \<Rightarrow> consensus_limits \<Rightarrow> ('h \<Rightarrow> nat) \<Rightarrow> 'h ChainState
     \<Rightarrow> 'h BlockAssembler \<Rightarrow> uint8_t list \<Rightarrow> bool
     \<Rightarrow> error + 'h CBlockTemplate \<times> 'h BlockAssembler" where
  "CreateNewBlock mempool limits tie chain a0 scriptPubKeyIn fMineWitnessTx =
     (case addPackageTxs mempool limits tie
             (CreateNewBlock_prelude chain a0 fMineWitnessTx) 0 0 of
        Inl e \<Rightarrow> Inl e
      | Inr (a, l) \<Rightarrow> CreateNewBlock_finish chain scriptPubKeyIn a)"

section \<open>A pool of three transactions\<close>

text \<open>
  The pool used to evaluate the model. \<open>TxD\<close> spends outputs of \<open>TxA\<close> and \<open>TxB\<close>. The
  modified fee of \<open>TxA\<close> (1500) is above its fee (1000), as after a priority delta. The
  walk of \<open>mapTx\<close> is by ancestor fee rate: 15, 10 and 5 per byte. The comparator is the
  cross-multiplied comparison of ancestor fee rates.
\<close>

datatype txid = TxA | TxB | TxD

instantiation txid :: linorder
begin
definition rank_txid :: "txid \<Rightarrow> nat" where
  "rank_txid t = (case t of TxA \<Rightarrow> 0 | TxB \<Rightarrow> 1 | TxD \<Rightarrow> 2)"
definition less_eq_txid :: "txid \<Rightarrow> txid \<Rightarrow> bool" where
  "less_eq_txid s t = (rank_txid s \<le> rank_txid t)"
definition less_txid :: "txid \<Rightarrow> txid \<Rightarrow> bool" where
  "less_txid s t = (rank_txid s < rank_txid t)"
instance
proof
  fix x y z :: txid
  show "(x < y) = (x \<le> y \<and> \<not> y \<le> x)" by (auto simp: less_eq_txid_def less_txid_def)
  show "x \<le> x" by (simp add: less_eq_txid_def)
  show "x \<le> y \<Longrightarrow> y \<le> z \<Longrightarrow> x \<le> z" by (simp add: less_eq_txid_def)
  show "x \<le> y \<Longrightarrow> y \<le> x \<Longrightarrow> x = y"
    by (cases x; cases y) (simp_all add: less_eq_txid_def rank_txid_def)
  show "x \<le> y \<or> y \<le> x" by (auto simp: less_eq_txid_def)
qed
end

instantiation txid :: finite
begin
instance
proof
  have "(UNIV :: txid set) \<subseteq> {TxA, TxB, TxD}"
  proof
    fix x :: txid show "x \<in> {TxA, TxB, TxD}" by (cases x) simp_all
  qed
  then show "finite (UNIV :: txid set)" by (rule finite_subset) simp
qed
end

definition pool3 :: "txid CTxMemPool" where
  "pool3 =
     \<lparr>mapTx_ancestor_score = [TxA, TxD, TxB],
      GetTxSize = (\<lambda>t. case t of TxA \<Rightarrow> 100 | TxB \<Rightarrow> 100 | TxD \<Rightarrow> 300),
      GetTxWeight = (\<lambda>t. case t of TxA \<Rightarrow> 400 | TxB \<Rightarrow> 400 | TxD \<Rightarrow> 1200),
      GetFee = (\<lambda>t. case t of TxA \<Rightarrow> 1000 | TxB \<Rightarrow> 500 | TxD \<Rightarrow> 3000),
      GetModifiedFee = (\<lambda>t. case t of TxA \<Rightarrow> 1500 | TxB \<Rightarrow> 500 | TxD \<Rightarrow> 3000),
      GetSigOpCost = (\<lambda>t. case t of TxA \<Rightarrow> 4 | TxB \<Rightarrow> 4 | TxD \<Rightarrow> 8),
      GetCountWithAncestors = (\<lambda>t. case t of TxA \<Rightarrow> 1 | TxB \<Rightarrow> 1 | TxD \<Rightarrow> 3),
      GetSizeWithAncestors = (\<lambda>t. case t of TxA \<Rightarrow> 100 | TxB \<Rightarrow> 100 | TxD \<Rightarrow> 500),
      GetModFeesWithAncestors = (\<lambda>t. case t of TxA \<Rightarrow> 1500 | TxB \<Rightarrow> 500 | TxD \<Rightarrow> 5000),
      GetSigOpCostWithAncestors = (\<lambda>t. case t of TxA \<Rightarrow> 4 | TxB \<Rightarrow> 4 | TxD \<Rightarrow> 16),
      CalculateDescendants = (\<lambda>t. case t of TxA \<Rightarrow> {TxA, TxD} | TxB \<Rightarrow> {TxB, TxD} | TxD \<Rightarrow> {TxD}),
      CalculateMemPoolAncestors = (\<lambda>t. case t of TxA \<Rightarrow> {} | TxB \<Rightarrow> {} | TxD \<Rightarrow> {TxA, TxB}),
      IsFinalTx = (\<lambda>t h c. True),
      HasWitness = (\<lambda>t. False),
      CompareTxMemPoolEntryByAncestorFee =
        (\<lambda>x y. nModFeesWithAncestors x * nSizeWithAncestors y
                > nModFeesWithAncestors y * nSizeWithAncestors x)\<rparr>"

text \<open>
  Limits, options (a floor of one unit per byte and a block of weight 6000), a chain tip
  at height 100 with subsidy 50, and the rank that leaves every tie to the order of the
  handles.
\<close>

definition limits0 :: consensus_limits where
  "limits0 = \<lparr>MAX_BLOCK_WEIGHT = 4000000, MAX_BLOCK_SIGOPS_COST = 80000\<rparr>"

definition options0 :: BlockAssembler_Options where
  "options0 = \<lparr>opt_blockMinFeeRate = (\<lambda>size. size), opt_nBlockMaxWeight = 6000\<rparr>"

definition chain0 :: "txid ChainState" where
  "chain0 =
     \<lparr>tip_nHeight = 100, tip_GetBlockHash = 7, tip_GetMedianTimePast = 1000,
      GetAdjustedTime = 2000, ComputeBlockVersion = 4, MineBlocksOnDemand = False,
      arg_blockversion = None, LOCKTIME_MEDIAN_TIME_PAST_flag = True, IsWitnessEnabled = True,
      GetBlockSubsidy = (\<lambda>h. 50), GenerateCoinbaseCommitment = (\<lambda>b. []),
      GetNextWorkRequired = (\<lambda>t. 0x1e0ffff0), fPowAllowMinDifficultyBlocks = False,
      GetLegacySigOpCount = (\<lambda>t. 1), TestBlockValidity = (\<lambda>b. True)\<rparr>"

definition tie0 :: "txid \<Rightarrow> nat" where
  "tie0 t = 0"


text \<open>
  An assembler whose fee floor is \<open>rate\<close> per byte, as \<open>CreateNewBlock\<close> has it when the
  selection starts, and the locals of \<open>addPackageTxs\<close> at the first pass over this pool.
\<close>

definition options_floor :: "int \<Rightarrow> BlockAssembler_Options" where
  "options_floor rate = \<lparr>opt_blockMinFeeRate = (\<lambda>size. rate * size), opt_nBlockMaxWeight = 6000\<rparr>"

definition locals0 :: "txid addPackageTxs_locals" where
  "locals0 = \<lparr>mi = [TxA, TxD, TxB], mapModifiedTx = [], failedTx = {}, nConsecutiveFailed = 0,
              nPackagesSelected = 0, nDescendantsUpdated = 0\<rparr>"

definition assembler_floor :: "int \<Rightarrow> txid BlockAssembler" where
  "assembler_floor rate =
     CreateNewBlock_prelude chain0 (BlockAssembler_new limits0 (options_floor rate)) True"

section \<open>The fee-rate floor\<close>

text \<open>
  Claim C5. Take a pass of the loop that reaches the evaluation of a candidate: the loop
  condition holds, the entry under \<open>mi\<close> is not skipped, the candidate \<open>it\<close> is chosen and
  is not in the block, and its package has the given size, fees and sig-op cost. If the
  fees are strictly below what the minimum fee rate asks of the size, the body returns and
  the whole loop ends there with the assembler as it was: neither this package nor a later
  one is added. If the fees are equal to that amount the body does not return: the
  comparison is strict, and a package that then passes the two tests is added.
\<close>

theorem fee_floor_ends_selection:
  assumes "\<not> (mi l = [] \<and> mapModifiedTx l = [])"
    and "\<not> (mi l \<noteq> [] \<and> SkipMapTxEntry a (hd (mi l)) (mapModifiedTx l) (failedTx l))"
    and "select_candidate mempool l = Some (it, modit, l1)"
    and "it \<notin> inBlock a"
    and "package_of mempool it modit = (packageSize, packageFees, packageSigOpsCost)"
  shows "(packageFees < blockMinFeeRate a packageSize \<longrightarrow>
            loop_body mempool limits tie a l = Return a l1
            \<and> addPackageTxs_loop mempool limits tie a l = Inr (a, l1))
       \<and> (packageFees = blockMinFeeRate a packageSize \<longrightarrow>
            (\<forall>a' l'. loop_body mempool limits tie a l \<noteq> Return a' l')
            \<and> (TestPackage limits a packageSize packageSigOpsCost
                 \<and> TestPackageTransactions mempool a
                      (insert it (onlyUnconfirmed a (CalculateMemPoolAncestors mempool it)))
               \<longrightarrow> (\<exists>a' l'. loop_body mempool limits tie a l = Continue a' l'
                           \<and> it \<in> inBlock a')))"
proof -
  have body: "loop_body mempool limits tie a l = evaluate_candidate mempool limits tie a it modit l1"
    using assms(2,3,4) by (auto simp: loop_body_def)
  have low: "loop_body mempool limits tie a l = Return a l1"
    if "packageFees < blockMinFeeRate a packageSize"
    unfolding body using that by (simp add: evaluate_candidate_def assms(5))
  have low': "addPackageTxs_loop mempool limits tie a l = Inr (a, l1)"
    if "packageFees < blockMinFeeRate a packageSize"
    using assms(1) low [OF that] by (auto simp: addPackageTxs_loop.simps [of mempool limits tie a l])
  have eq1: "loop_body mempool limits tie a l \<noteq> Return a' l'"
    if "packageFees = blockMinFeeRate a packageSize" for a' l'
    unfolding body using that
    by (auto simp: evaluate_candidate_def assms(5) Let_def split: prod.splits)
  have eq2: "\<exists>a' l'. loop_body mempool limits tie a l = Continue a' l' \<and> it \<in> inBlock a'"
    if "packageFees = blockMinFeeRate a packageSize"
      and "TestPackage limits a packageSize packageSigOpsCost"
      and "TestPackageTransactions mempool a
             (insert it (onlyUnconfirmed a (CalculateMemPoolAncestors mempool it)))"
  proof -
    let ?P = "insert it (onlyUnconfirmed a (CalculateMemPoolAncestors mempool it))"
    obtain a' l' where c: "commit_package mempool tie ?P a l1 = (a', l')"
      by (cases "commit_package mempool tie ?P a l1") auto
    have "loop_body mempool limits tie a l = Continue a' l'"
      unfolding body using that c by (simp add: evaluate_candidate_def assms(5) Let_def)
    moreover have "it \<in> inBlock a'"
      using inBlock_commit_package [of mempool tie ?P a l1] c by simp
    ultimately show ?thesis by blast
  qed
  show ?thesis using low low' eq1 eq2 by blast
qed

text \<open>
  Claim C5 on the example pool: with a floor of 20 per byte the first candidate \<open>TxA\<close> (1500
  for 100 bytes) ends the loop; with a floor of 15 per byte it is added.
\<close>

theorem fee_floor_ends_selection_witness:
  "addPackageTxs_loop pool3 limits0 tie0 (assembler_floor 20) locals0
     = Inr (assembler_floor 20, locals0\<lparr>mi := [TxD, TxB]\<rparr>)
   \<and> (\<exists>a' l'. loop_body pool3 limits0 tie0 (assembler_floor 15) locals0 = Continue a' l'
                \<and> TxA \<in> inBlock a')"
proof -
  have l: "\<not> (mi locals0 = [] \<and> mapModifiedTx locals0 = [])"
    by (simp add: locals0_def)
  have s: "\<not> (mi locals0 \<noteq> [] \<and> SkipMapTxEntry (assembler_floor r) (hd (mi locals0))
                (mapModifiedTx locals0) (failedTx locals0))" for r
    by (simp add: locals0_def SkipMapTxEntry_def modified_count_def modified_find_def
        assembler_floor_def CreateNewBlock_prelude_def Let_def resetBlock_def)
  have c: "select_candidate pool3 locals0 = Some (TxA, None, locals0\<lparr>mi := [TxD, TxB]\<rparr>)"
    by (simp add: select_candidate_def locals0_def modified_begin_def)
  have n: "TxA \<notin> inBlock (assembler_floor r)" for r
    by (simp add: assembler_floor_def CreateNewBlock_prelude_def Let_def resetBlock_def)
  have p: "package_of pool3 TxA None = (100, 1500, 4)"
    by (simp add: package_of_def pool3_def)
  have r: "blockMinFeeRate (assembler_floor r) 100 = r * 100" for r
    by (simp add: assembler_floor_def CreateNewBlock_prelude_def Let_def resetBlock_def
        BlockAssembler_new_def options_floor_def)
  have t: "TestPackage limits0 (assembler_floor 15) 100 4"
    by (simp add: TestPackage_def assembler_floor_def CreateNewBlock_prelude_def Let_def
        resetBlock_def BlockAssembler_new_def options_floor_def limits0_def
        WITNESS_SCALE_FACTOR_def)
  have f: "TestPackageTransactions pool3 (assembler_floor 15)
             (insert TxA (onlyUnconfirmed (assembler_floor 15) (CalculateMemPoolAncestors pool3 TxA)))"
    by (simp add: TestPackageTransactions_def pool3_def onlyUnconfirmed_def)
  show ?thesis
    using fee_floor_ends_selection [OF l s c n p, of 20 limits0 tie0]
      fee_floor_ends_selection [OF l s c n p, of 15 limits0 tie0] t f
    by (simp add: r)
qed

section \<open>Fees of the block and the coinbase\<close>

lemma fst_commit_package:
  "fst (commit_package mempool tie package a l) =
     fst (add_sorted mempool (SortForBlock mempool tie package) (a, mapModifiedTx l))"
  by (simp add: commit_package_def Let_def)

lemma package_disjoint:
  "it \<notin> inBlock a \<Longrightarrow> insert it (onlyUnconfirmed a X) \<inter> inBlock a = {}"
  by (auto simp: onlyUnconfirmed_def)

definition fees_inv :: "'h CTxMemPool \<Rightarrow> 'h BlockAssembler \<Rightarrow> 'h list \<Rightarrow> bool" where
  "fees_inv mempool a hs \<longleftrightarrow>
     vtx (block (pblocktemplate a)) = NullTx # map MempoolTx hs
     \<and> vTxFees (pblocktemplate a) = - 1 # map (GetFee mempool) hs
     \<and> nFees a = sum_list (map (GetFee mempool) hs)
     \<and> set hs = inBlock a \<and> distinct hs"

lemma fees_inv_commit:
  assumes "fees_inv mempool a hs" and "package \<inter> inBlock a = {}"
  shows "fees_inv mempool (fst (commit_package mempool tie package a l))
           (hs @ SortForBlock mempool tie package)"
  using assms
  by (auto simp: fees_inv_def fst_commit_package fst_add_sorted set_SortForBlock
      distinct_SortForBlock)

lemma fees_inv_step:
  assumes "(\<exists>hs. fees_inv mempool a hs) \<and> nHeight a = H"
    and "outcome_state (loop_body mempool limits tie a l) = Some (a2, l2)"
  shows "(\<exists>hs. fees_inv mempool a2 hs) \<and> nHeight a2 = H"
  using loop_body_cases [OF assms(2)]
proof (elim disjE conjE exE)
  fix S assume "a2 = a"
  with assms(1) show ?thesis by simp
next
  fix it modit l1
  assume nin: "it \<notin> inBlock a"
    and c: "(a2, l2) = commit_package mempool tie
               (insert it (onlyUnconfirmed a (CalculateMemPoolAncestors mempool it))) a l1"
  let ?P = "insert it (onlyUnconfirmed a (CalculateMemPoolAncestors mempool it))"
  from assms(1) obtain hs where hs: "fees_inv mempool a hs" by blast
  have a2: "a2 = fst (commit_package mempool tie ?P a l1)" using c by (metis fst_conv)
  have "fees_inv mempool a2 (hs @ SortForBlock mempool tie ?P)"
    unfolding a2 by (rule fees_inv_commit [OF hs package_disjoint [OF nin]])
  moreover have "nHeight a2 = H"
    using assms(1) unfolding a2 by (simp add: fst_commit_package fst_add_sorted)
  ultimately show ?thesis by blast
qed

lemma fees_inv_prelude:
  "fees_inv mempool (CreateNewBlock_prelude chain a0 w) []"
  by (simp add: fees_inv_def CreateNewBlock_prelude_def Let_def resetBlock_def new_CBlockTemplate_def)

lemma if_Inl_Inr: "(if c then Inl x else Inr y) = Inr z \<Longrightarrow> y = z"
  by (simp split: if_splits)

lemma vtx_UpdateTime: "vtx (snd (UpdateTime chain b)) = vtx b"
  by (simp add: UpdateTime_def Let_def)

lemma CreateNewBlock_finish_Inr:
  assumes "CreateNewBlock_finish chain scriptPubKeyIn a = Inr (t, a')"
  shows "vtx (block t) =
           (vtx (block (pblocktemplate a)))
             [0 := CoinbaseTx scriptPubKeyIn (nFees a + GetBlockSubsidy chain (nHeight a)) (nHeight a)]"
    and "vTxFees t = (vTxFees (pblocktemplate a))[0 := - nFees a]"
    and "a' = a\<lparr>pblocktemplate := t\<rparr>"
proof -
  let ?t = "pblocktemplate a"
  let ?cb = "CoinbaseTx scriptPubKeyIn (nFees a + GetBlockSubsidy chain (nHeight a)) (nHeight a)"
  let ?b1 = "(block ?t)\<lparr>vtx := (vtx (block ?t))[0 := ?cb]\<rparr>"
  let ?t1 = "?t\<lparr>block := ?b1,
                 vchCoinbaseCommitment := GenerateCoinbaseCommitment chain ?b1,
                 vTxFees := (vTxFees ?t)[0 := - nFees a]\<rparr>"
  let ?b2 = "snd (UpdateTime chain (?b1\<lparr>hashPrevBlock := tip_GetBlockHash chain\<rparr>))"
  let ?b3 = "?b2\<lparr>nBits := GetNextWorkRequired chain (nTime ?b2), nNonce := 0\<rparr>"
  let ?t3 = "?t1\<lparr>block := ?b3,
                  vTxSigOpsCost :=
                    (vTxSigOpsCost ?t1)
                      [0 := WITNESS_SCALE_FACTOR * GetLegacySigOpCount chain (vtx ?b3 ! 0)]\<rparr>"
  have e: "CreateNewBlock_finish chain scriptPubKeyIn a =
           (if \<not> TestBlockValidity chain ?b3 then Inl TestBlockValidityFailed
            else Inr (?t3, a\<lparr>pblocktemplate := ?t3\<rparr>))"
    unfolding CreateNewBlock_finish_def Let_def ..
  have p: "(?t3, a\<lparr>pblocktemplate := ?t3\<rparr>) = (t, a')"
    by (rule if_Inl_Inr [OF assms [unfolded e]])
  have t: "t = ?t3"
    using arg_cong [OF p, of fst] unfolding fst_conv by (rule sym)
  have a': "a' = a\<lparr>pblocktemplate := ?t3\<rparr>"
    using arg_cong [OF p, of snd] unfolding snd_conv by (rule sym)
  show "a' = a\<lparr>pblocktemplate := t\<rparr>" using t a' by simp
  have "vtx (block ?t3) = vtx ?b2" by simp
  also have "\<dots> = vtx (?b1\<lparr>hashPrevBlock := tip_GetBlockHash chain\<rparr>)" by (rule vtx_UpdateTime)
  also have "\<dots> = (vtx (block ?t))[0 := ?cb]" by simp
  finally show "vtx (block t) = (vtx (block ?t))[0 := ?cb]" unfolding t .
  show "vTxFees t = (vTxFees ?t)[0 := - nFees a]" unfolding t by simp
qed

text \<open>
  Claim C10. When \<open>CreateNewBlock\<close> returns a template, its transactions are the coinbase
  followed by the transactions \<open>hs\<close> that \<open>AddToBlock\<close> committed, each once and together
  the set \<open>inBlock\<close>; the fee vector holds \<open>GetFee\<close> of each of them, the running total
  \<open>nFees\<close> is the sum of those raw fees, the first entry of the vector is its negation, and
  the coinbase pays that sum plus the subsidy of the new height. The modified fee does
  not occur.
\<close>

theorem CreateNewBlock_coinbase_pays_raw_fees:
  assumes "CreateNewBlock mempool limits tie chain a0 scriptPubKeyIn fMineWitnessTx = Inr (t, a)"
  shows "\<exists>hs. vtx (block t) =
               CoinbaseTx scriptPubKeyIn
                 (sum_list (map (GetFee mempool) hs) + GetBlockSubsidy chain (tip_nHeight chain + 1))
                 (tip_nHeight chain + 1)
               # map MempoolTx hs
            \<and> vTxFees t = (- sum_list (map (GetFee mempool) hs)) # map (GetFee mempool) hs
            \<and> nFees a = sum_list (map (GetFee mempool) hs)
            \<and> set hs = inBlock a \<and> distinct hs"
proof -
  let ?a1 = "CreateNewBlock_prelude chain a0 fMineWitnessTx"
  from assms obtain a3 l3 where
    run: "addPackageTxs mempool limits tie ?a1 0 0 = Inr (a3, l3)"
    and fin: "CreateNewBlock_finish chain scriptPubKeyIn a3 = Inr (t, a)"
    by (auto simp: CreateNewBlock_def split: sum.splits prod.splits)
  have init: "(\<exists>hs. fees_inv mempool ?a1 hs) \<and> nHeight ?a1 = tip_nHeight chain + 1"
    using fees_inv_prelude [of mempool chain a0 fMineWitnessTx]
    by (auto simp: CreateNewBlock_prelude_def Let_def)
  have "(\<exists>hs. fees_inv mempool a3 hs) \<and> nHeight a3 = tip_nHeight chain + 1"
    by (rule addPackageTxs_loop_invariant
          [where P = "\<lambda>a l. (\<exists>hs. fees_inv mempool a hs) \<and> nHeight a = tip_nHeight chain + 1",
           OF run [unfolded addPackageTxs_def] init fees_inv_step])
  then obtain hs where hs: "fees_inv mempool a3 hs" and h: "nHeight a3 = tip_nHeight chain + 1"
    by blast
  have "vtx (block t) =
               CoinbaseTx scriptPubKeyIn
                 (sum_list (map (GetFee mempool) hs) + GetBlockSubsidy chain (tip_nHeight chain + 1))
                 (tip_nHeight chain + 1)
               # map MempoolTx hs
            \<and> vTxFees t = (- sum_list (map (GetFee mempool) hs)) # map (GetFee mempool) hs
            \<and> nFees a = sum_list (map (GetFee mempool) hs)
            \<and> set hs = inBlock a \<and> distinct hs"
    using CreateNewBlock_finish_Inr [OF fin] hs h
    by (simp add: fees_inv_def)
  then show ?thesis by blast
qed

text \<open>
  Claim C10 on the example pool: \<open>TxA\<close> and \<open>TxB\<close> are selected, the raw fees are
  1000 + 500, and the modified fees of the two would have been 2000.
\<close>

theorem CreateNewBlock_coinbase_pays_raw_fees_witness:
  "\<exists>t a hs. CreateNewBlock pool3 limits0 tie0 chain0 (BlockAssembler_new limits0 options0) [] True
                = Inr (t, a)
     \<and> vtx (block t) = CoinbaseTx [] (sum_list (map (GetFee pool3) hs) + 50) 101 # map MempoolTx hs
     \<and> nFees a = sum_list (map (GetFee pool3) hs)
     \<and> nFees a = 1500
     \<and> set hs = {TxA, TxB}
     \<and> GetModifiedFee pool3 TxA + GetModifiedFee pool3 TxB = 2000"
proof -
  have ev: "case CreateNewBlock pool3 limits0 tie0 chain0 (BlockAssembler_new limits0 options0) [] True of
              Inl e \<Rightarrow> False
            | Inr (t, a) \<Rightarrow> inBlock a = {TxA, TxB} \<and> nFees a = 1500"
    by code_simp
  then obtain t a where run: "CreateNewBlock pool3 limits0 tie0 chain0
        (BlockAssembler_new limits0 options0) [] True = Inr (t, a)"
    and a: "inBlock a = {TxA, TxB}" "nFees a = 1500"
    by (auto split: sum.splits prod.splits)
  from CreateNewBlock_coinbase_pays_raw_fees [OF run] obtain hs where
    "vtx (block t) = CoinbaseTx []
        (sum_list (map (GetFee pool3) hs) + GetBlockSubsidy chain0 (tip_nHeight chain0 + 1))
        (tip_nHeight chain0 + 1) # map MempoolTx hs"
    "nFees a = sum_list (map (GetFee pool3) hs)" "set hs = inBlock a"
    by blast
  moreover have "GetBlockSubsidy chain0 (tip_nHeight chain0 + 1) = 50" "tip_nHeight chain0 + 1 = 101"
    by (simp_all add: chain0_def)
  moreover have "GetModifiedFee pool3 TxA + GetModifiedFee pool3 TxB = 2000"
    by (simp add: pool3_def)
  ultimately show ?thesis using run a by auto
qed

section \<open>Submission of a found block: ProcessBlockFound (lines 567-584)\<close>

text \<open>
  The node as the function sees it: the hash of the active tip, the log, and the blocks
  that have been handed to \<open>ProcessNewBlock\<close> (validation.cpp, not under src/; its
  verdict on a block is the parameter \<open>ProcessNewBlock\<close>). \<open>error(...)\<close> writes its message
  to the log and evaluates to \<open>false\<close>.
\<close>

datatype 'h log_line =
    LogBlock "'h CBlock"
  | LogGenerated "'h CBlock"
  | LogError string

record 'h NodeState =
  chainActive_Tip_GetBlockHash :: uint256
  debug_log :: "'h log_line list"
  ProcessNewBlock_calls :: "'h CBlock list"

definition ProcessBlockFound ::
  "('h CBlock \<Rightarrow> bool) \<Rightarrow> 'h CBlock \<Rightarrow> 'h NodeState \<Rightarrow> bool \<times> 'h NodeState" where
  "ProcessBlockFound ProcessNewBlock pblock node =
     (let node1 = node\<lparr>debug_log := debug_log node @ [LogBlock pblock, LogGenerated pblock]\<rparr>
      in if hashPrevBlock pblock \<noteq> chainActive_Tip_GetBlockHash node1
         then (False,
               node1\<lparr>debug_log := debug_log node1
                        @ [LogError ''ProcessBlockFound: generated block is stale'']\<rparr>)
         else
           (let node2 = node1\<lparr>ProcessNewBlock_calls := ProcessNewBlock_calls node1 @ [pblock]\<rparr>
            in if \<not> ProcessNewBlock pblock
               then (False,
                     node2\<lparr>debug_log := debug_log node2
                        @ [LogError ''ProcessBlockFound: ProcessNewBlock, block not accepted'']\<rparr>)
               else (True, node2)))"

text \<open>
  Claim C7. A block whose previous-block hash differs from the hash of the tip makes
  \<open>ProcessBlockFound\<close> return \<open>false\<close> with the error "generated block is stale" as its last
  log line, and \<open>ProcessNewBlock\<close> is not called. A block that \<open>ProcessNewBlock\<close> does receive
  therefore has the hash of the tip as its previous-block hash; such a block is handed over
  once and the verdict of \<open>ProcessNewBlock\<close> is the result.
\<close>

theorem ProcessBlockFound_stale:
  "(hashPrevBlock pblock \<noteq> chainActive_Tip_GetBlockHash node \<longrightarrow>
      fst (ProcessBlockFound ProcessNewBlock pblock node) = False
      \<and> last (debug_log (snd (ProcessBlockFound ProcessNewBlock pblock node)))
          = LogError ''ProcessBlockFound: generated block is stale''
      \<and> ProcessNewBlock_calls (snd (ProcessBlockFound ProcessNewBlock pblock node))
          = ProcessNewBlock_calls node)
   \<and> (hashPrevBlock pblock = chainActive_Tip_GetBlockHash node \<longrightarrow>
      ProcessNewBlock_calls (snd (ProcessBlockFound ProcessNewBlock pblock node))
          = ProcessNewBlock_calls node @ [pblock]
      \<and> fst (ProcessBlockFound ProcessNewBlock pblock node) = ProcessNewBlock pblock)"
  by (simp add: ProcessBlockFound_def Let_def)

definition block0 :: "txid CBlock" where
  "block0 = \<lparr>nVersion = 4, hashPrevBlock = 7, hashMerkleRoot = 0, nTime = 2000, nBits = 0,
             nNonce = 5, vtx = [CoinbaseTx [] 50 101]\<rparr>"

definition node0 :: "uint256 \<Rightarrow> txid NodeState" where
  "node0 tip = \<lparr>chainActive_Tip_GetBlockHash = tip, debug_log = [], ProcessNewBlock_calls = []\<rparr>"

text \<open>Claim C7 at a block built on hash 7, with the tip at hash 8 and at hash 7.\<close>

theorem ProcessBlockFound_stale_witness:
  "fst (ProcessBlockFound (\<lambda>b. True) block0 (node0 8)) = False
   \<and> ProcessNewBlock_calls (snd (ProcessBlockFound (\<lambda>b. True) block0 (node0 8))) = []
   \<and> ProcessNewBlock_calls (snd (ProcessBlockFound (\<lambda>b. True) block0 (node0 7))) = [block0]"
  using ProcessBlockFound_stale [of block0 "node0 8" "\<lambda>b. True"]
    ProcessBlockFound_stale [of block0 "node0 7" "\<lambda>b. True"]
  by (simp add: block0_def node0_def)


section \<open>A consistent pool\<close>

text \<open>
  What the pool maintains for its entries (txmempool.cpp, not under src/), as the spec
  lists it: ancestor sets are closed under taking ancestors and no transaction is its own
  ancestor; the descendants of \<open>h\<close> are \<open>h\<close> itself and the entries that have \<open>h\<close> as an
  ancestor; the ancestor count includes the entry; the virtual size of an entry is at
  least its weight divided by the witness scale factor; and the cached aggregates are the
  sums over the entry and its ancestors.
\<close>

definition ancestry_consistent :: "'h CTxMemPool \<Rightarrow> bool" where
  "ancestry_consistent mempool \<longleftrightarrow>
     (\<forall>h. h \<notin> CalculateMemPoolAncestors mempool h)
     \<and> (\<forall>h a. a \<in> CalculateMemPoolAncestors mempool h \<longrightarrow>
            CalculateMemPoolAncestors mempool a \<subseteq> CalculateMemPoolAncestors mempool h)
     \<and> (\<forall>h d. d \<in> CalculateDescendants mempool h \<longleftrightarrow>
            d = h \<or> h \<in> CalculateMemPoolAncestors mempool d)
     \<and> (\<forall>h. GetCountWithAncestors mempool h = card (CalculateMemPoolAncestors mempool h) + 1)"

definition aggregates_consistent :: "'h CTxMemPool \<Rightarrow> bool" where
  "aggregates_consistent mempool \<longleftrightarrow>
     (\<forall>h. 0 \<le> GetTxSize mempool h \<and> 0 \<le> GetSigOpCost mempool h
          \<and> GetTxWeight mempool h \<le> WITNESS_SCALE_FACTOR * GetTxSize mempool h)
     \<and> (\<forall>h. GetSizeWithAncestors mempool h
               = sum (GetTxSize mempool) (insert h (CalculateMemPoolAncestors mempool h))
            \<and> GetModFeesWithAncestors mempool h
               = sum (GetModifiedFee mempool) (insert h (CalculateMemPoolAncestors mempool h))
            \<and> GetSigOpCostWithAncestors mempool h
               = sum (GetSigOpCost mempool) (insert h (CalculateMemPoolAncestors mempool h)))"

lemma descendants_iff:
  "ancestry_consistent mempool \<Longrightarrow>
     d \<in> CalculateDescendants mempool h \<longleftrightarrow> d = h \<or> h \<in> CalculateMemPoolAncestors mempool d"
  by (simp add: ancestry_consistent_def)

lemma added_ancestors:
  assumes "ancestry_consistent mempool" and "d \<notin> P"
  shows "{x \<in> P. d \<in> CalculateDescendants mempool x} = P \<inter> CalculateMemPoolAncestors mempool d"
  using assms by (auto simp: descendants_iff)

lemma mapModifiedTx_commit_package:
  "mapModifiedTx (snd (commit_package mempool tie package a l)) =
     snd (UpdatePackagesForAdded mempool package
            (filter (\<lambda>e. iter e \<notin> package) (mapModifiedTx l)))"
  by (simp add: commit_package_def Let_def snd_add_sorted set_SortForBlock)

lemma view_commit_package:
  assumes "ancestry_consistent mempool" and "d \<notin> package"
  shows "view mempool (mapModifiedTx (snd (commit_package mempool tie package a l))) d =
           dec_by mempool (package \<inter> CalculateMemPoolAncestors mempool d)
             (view mempool (mapModifiedTx l) d)"
  using assms
  by (simp add: mapModifiedTx_commit_package view_UpdatePackagesForAdded view_filter
      added_ancestors)

lemma distinct_commit_package:
  "distinct (map iter (mapModifiedTx l)) \<Longrightarrow>
     distinct (map iter (mapModifiedTx (snd (commit_package mempool tie package a l))))"
  by (simp add: mapModifiedTx_commit_package distinct_UpdatePackagesForAdded distinct_map_filter)

lemma package_eq:
  "it \<notin> inBlock a \<Longrightarrow>
     insert it (onlyUnconfirmed a X) = insert it X - inBlock a"
  by (auto simp: onlyUnconfirmed_def)

lemma rest_after_commit:
  fixes f :: "'h::finite \<Rightarrow> int"
  assumes "P \<inter> I = {}" and "d \<notin> P"
  shows "sum f (insert d A - (I \<union> P)) = sum f (insert d A - I) - sum f (P \<inter> A)"
proof -
  have s: "P \<inter> A \<subseteq> insert d A - I" using assms by auto
  have e: "insert d A - (I \<union> P) = (insert d A - I) - (P \<inter> A)" using assms by auto
  show ?thesis unfolding e by (rule sum_diff [OF _ s]) simp
qed

section \<open>The budgets of the block\<close>

text \<open>
  The counters of the assembler are 64-bit and the sums of \<open>TestPackage\<close> wrap at \<open>2^64\<close>.
  No sum wraps for a pool and limits that are within these bounds: a weight is not
  negative, and the two limits, four times the ancestor size of an entry and the ancestor
  sig-op cost of an entry are below \<open>2^63\<close>.
\<close>

definition within_uint64 :: "'h CTxMemPool \<Rightarrow> consensus_limits \<Rightarrow> bool" where
  "within_uint64 mempool limits \<longleftrightarrow>
     MAX_BLOCK_WEIGHT limits \<le> 2 ^ 63
     \<and> MAX_BLOCK_SIGOPS_COST limits < 2 ^ 63
     \<and> (\<forall>h. 0 \<le> GetTxWeight mempool h
           \<and> WITNESS_SCALE_FACTOR * GetSizeWithAncestors mempool h < 2 ^ 63
           \<and> GetSigOpCostWithAncestors mempool h < 2 ^ 63)"

text \<open>
  The invariant of the selection loop behind claim C1: both counters are within their
  budgets, the overlay has one entry per handle, and for every transaction \<open>d\<close> outside the
  block the size and the sig-op cost that the overlay (or, without an entry, the pool)
  reports for the package of \<open>d\<close> are at least those of the part of the package that is
  not yet in the block, and at most the cached aggregates of \<open>d\<close>.
\<close>

definition budget_inv ::
  "'h::finite CTxMemPool \<Rightarrow> consensus_limits \<Rightarrow> 'h BlockAssembler
     \<Rightarrow> 'h indexed_modified_transaction_set \<Rightarrow> bool" where
  "budget_inv mempool limits a mapModified \<longleftrightarrow>
     uint (nBlockWeight a) \<le> nBlockMaxWeight a
     \<and> nBlockMaxWeight a < 2 ^ 63
     \<and> uint (nBlockSigOpsCost a) \<le> MAX_BLOCK_SIGOPS_COST limits
     \<and> distinct (map iter mapModified)
     \<and> (\<forall>d. d \<notin> inBlock a \<longrightarrow>
           sum (GetTxSize mempool) (insert d (CalculateMemPoolAncestors mempool d) - inBlock a)
             \<le> nSizeWithAncestors (view mempool mapModified d)
           \<and> nSizeWithAncestors (view mempool mapModified d) \<le> GetSizeWithAncestors mempool d
           \<and> sum (GetSigOpCost mempool) (insert d (CalculateMemPoolAncestors mempool d) - inBlock a)
             \<le> nSigOpCostWithAncestors (view mempool mapModified d)
           \<and> nSigOpCostWithAncestors (view mempool mapModified d)
             \<le> GetSigOpCostWithAncestors mempool d)"

lemma uint_plus_of_int:
  fixes w :: "64 word"
  assumes "0 \<le> y" and "uint w + y < 2 ^ 64"
  shows "uint (w + word_of_int y) = uint w + y"
proof -
  have "uint (w + word_of_int y) = (uint w + y mod 2 ^ 64) mod 2 ^ 64"
    by (simp add: uint_word_ariths uint_word_of_int)
  also have "\<dots> = (uint w + y) mod 2 ^ 64" by (simp add: mod_simps)
  also have "\<dots> = uint w + y" using assms by (intro mod_pos_pos_trivial) simp_all
  finally show ?thesis .
qed

lemma uint_of_int_id:
  assumes "0 \<le> y" and "y < 2 ^ 64"
  shows "uint (word_of_int y :: 64 word) = y"
  using assms by (simp add: uint_word_of_int)

lemma TestPackage_iff:
  assumes "uint (nBlockWeight a) \<le> nBlockMaxWeight a" and "nBlockMaxWeight a < 2 ^ 63"
    and "uint (nBlockSigOpsCost a) \<le> MAX_BLOCK_SIGOPS_COST limits"
    and "MAX_BLOCK_SIGOPS_COST limits < 2 ^ 63"
    and "0 \<le> packageSize" and "WITNESS_SCALE_FACTOR * packageSize < 2 ^ 63"
    and "0 \<le> packageSigOpsCost" and "packageSigOpsCost < 2 ^ 63"
  shows "TestPackage limits a packageSize packageSigOpsCost \<longleftrightarrow>
           uint (nBlockWeight a) + WITNESS_SCALE_FACTOR * packageSize < nBlockMaxWeight a
           \<and> uint (nBlockSigOpsCost a) + packageSigOpsCost < MAX_BLOCK_SIGOPS_COST limits"
proof -
  have p: "0 \<le> WITNESS_SCALE_FACTOR * packageSize"
    using assms(5) by (simp add: WITNESS_SCALE_FACTOR_def)
  have e: "(word_of_int WITNESS_SCALE_FACTOR :: 64 word) * word_of_int packageSize
             = word_of_int (WITNESS_SCALE_FACTOR * packageSize)"
    by simp
  have m0: "0 \<le> nBlockMaxWeight a" using assms(1) uint_ge_0 [of "nBlockWeight a"] by linarith
  have s0: "0 \<le> MAX_BLOCK_SIGOPS_COST limits"
    using assms(3) uint_ge_0 [of "nBlockSigOpsCost a"] by linarith
  have w: "uint (nBlockWeight a + word_of_int (WITNESS_SCALE_FACTOR * packageSize))
             = uint (nBlockWeight a) + WITNESS_SCALE_FACTOR * packageSize"
    using assms(1,2,6) by (intro uint_plus_of_int p) simp
  have s: "uint (nBlockSigOpsCost a + word_of_int packageSigOpsCost)
             = uint (nBlockSigOpsCost a) + packageSigOpsCost"
    using assms(3,4,8) by (intro uint_plus_of_int assms(7)) simp
  have m: "uint (word_of_int (nBlockMaxWeight a) :: 64 word) = nBlockMaxWeight a"
    using m0 assms(2) by (intro uint_of_int_id) simp_all
  have c: "uint (word_of_int (MAX_BLOCK_SIGOPS_COST limits) :: 64 word)
             = MAX_BLOCK_SIGOPS_COST limits"
    using s0 assms(4) by (intro uint_of_int_id) simp_all
  show ?thesis
    unfolding TestPackage_def e word_le_def w s m c by auto
qed

lemma fresh_covers:
  fixes mempool :: "'h::finite CTxMemPool"
  assumes "aggregates_consistent mempool"
  shows "sum (GetTxSize mempool) (insert d (CalculateMemPoolAncestors mempool d) - I)
           \<le> nSizeWithAncestors (CTxMemPoolModifiedEntry_of mempool d)"
    and "sum (GetSigOpCost mempool) (insert d (CalculateMemPoolAncestors mempool d) - I)
           \<le> nSigOpCostWithAncestors (CTxMemPoolModifiedEntry_of mempool d)"
proof -
  let ?A = "insert d (CalculateMemPoolAncestors mempool d)"
  have "sum (GetTxSize mempool) (?A - I) \<le> sum (GetTxSize mempool) ?A"
    using assms by (intro sum_mono2) (auto simp: aggregates_consistent_def)
  then show "sum (GetTxSize mempool) (?A - I)
           \<le> nSizeWithAncestors (CTxMemPoolModifiedEntry_of mempool d)"
    using assms by (simp add: CTxMemPoolModifiedEntry_of_def aggregates_consistent_def)
  have "sum (GetSigOpCost mempool) (?A - I) \<le> sum (GetSigOpCost mempool) ?A"
    using assms by (intro sum_mono2) (auto simp: aggregates_consistent_def)
  then show "sum (GetSigOpCost mempool) (?A - I)
           \<le> nSigOpCostWithAncestors (CTxMemPoolModifiedEntry_of mempool d)"
    using assms by (simp add: CTxMemPoolModifiedEntry_of_def aggregates_consistent_def)
qed

lemma fresh_cached:
  "nSizeWithAncestors (CTxMemPoolModifiedEntry_of mempool d) = GetSizeWithAncestors mempool d"
  "nSigOpCostWithAncestors (CTxMemPoolModifiedEntry_of mempool d)
     = GetSigOpCostWithAncestors mempool d"
  by (simp_all add: CTxMemPoolModifiedEntry_of_def)

lemma budget_inv_filter:
  assumes "aggregates_consistent mempool" and "budget_inv mempool limits a mapModified"
  shows "budget_inv mempool limits a (filter (\<lambda>e. iter e \<notin> S) mapModified)"
  using assms(2) fresh_covers [OF assms(1)]
  by (auto simp: budget_inv_def view_filter distinct_map_filter fresh_cached)

lemma package_covered:
  fixes mempool :: "'h::{finite, linorder} CTxMemPool"
  assumes ag: "aggregates_consistent mempool"
    and inv: "budget_inv mempool limits a (mapModifiedTx l)"
    and sel: "select_candidate mempool l = Some (it, modit, l1)"
    and nin: "it \<notin> inBlock a"
  shows "sum (GetTxSize mempool) (insert it (CalculateMemPoolAncestors mempool it) - inBlock a)
           \<le> fst (package_of mempool it modit)"
    and "fst (package_of mempool it modit) \<le> GetSizeWithAncestors mempool it"
    and "sum (GetSigOpCost mempool) (insert it (CalculateMemPoolAncestors mempool it) - inBlock a)
           \<le> snd (snd (package_of mempool it modit))"
    and "snd (snd (package_of mempool it modit)) \<le> GetSigOpCostWithAncestors mempool it"
proof -
  have "sum (GetTxSize mempool) (insert it (CalculateMemPoolAncestors mempool it) - inBlock a)
           \<le> fst (package_of mempool it modit)
      \<and> fst (package_of mempool it modit) \<le> GetSizeWithAncestors mempool it
      \<and> sum (GetSigOpCost mempool) (insert it (CalculateMemPoolAncestors mempool it) - inBlock a)
           \<le> snd (snd (package_of mempool it modit))
      \<and> snd (snd (package_of mempool it modit)) \<le> GetSigOpCostWithAncestors mempool it"
    using select_candidate_cases [OF sel]
  proof (elim disjE conjE exE)
    assume "modit = None"
    then show ?thesis
      using fresh_covers [OF ag, of it "inBlock a"]
      by (simp add: package_of_def CTxMemPoolModifiedEntry_of_def)
  next
    fix m assume m: "modit = Some m" "m \<in> set (mapModifiedTx l)" "it = iter m"
    have d: "distinct (map iter (mapModifiedTx l))" using inv by (simp add: budget_inv_def)
    have "modified_find (mapModifiedTx l) (iter m) = Some m"
      by (rule modified_find_distinct [OF d m(2)])
    then have v: "view mempool (mapModifiedTx l) it = m" using m(3) by (simp add: view_def)
    show ?thesis
      using inv nin v m(1) by (auto simp: budget_inv_def package_of_def)
  qed
  then show "sum (GetTxSize mempool) (insert it (CalculateMemPoolAncestors mempool it) - inBlock a)
           \<le> fst (package_of mempool it modit)"
    and "fst (package_of mempool it modit) \<le> GetSizeWithAncestors mempool it"
    and "sum (GetSigOpCost mempool) (insert it (CalculateMemPoolAncestors mempool it) - inBlock a)
           \<le> snd (snd (package_of mempool it modit))"
    and "snd (snd (package_of mempool it modit)) \<le> GetSigOpCostWithAncestors mempool it"
    by simp_all
qed

lemma weight_le_scaled_size:
  fixes mempool :: "'h::finite CTxMemPool"
  assumes "aggregates_consistent mempool"
  shows "sum (GetTxWeight mempool) P \<le> WITNESS_SCALE_FACTOR * sum (GetTxSize mempool) P"
proof -
  have "sum (GetTxWeight mempool) P \<le> (\<Sum>x\<in>P. WITNESS_SCALE_FACTOR * GetTxSize mempool x)"
    using assms by (intro sum_mono) (simp add: aggregates_consistent_def)
  then show ?thesis by (simp add: sum_distrib_left)
qed

lemma counters_commit_package:
  "nBlockWeight (fst (commit_package mempool tie package a l))
     = nBlockWeight a + word_of_int (sum (GetTxWeight mempool) package)"
  "nBlockSigOpsCost (fst (commit_package mempool tie package a l))
     = nBlockSigOpsCost a + word_of_int (sum (GetSigOpCost mempool) package)"
  "nFees (fst (commit_package mempool tie package a l))
     = nFees a + sum (GetFee mempool) package"
  "nBlockMaxWeight (fst (commit_package mempool tie package a l)) = nBlockMaxWeight a"
  by (simp_all add: fst_commit_package fst_add_sorted sum_list_SortForBlock)

lemma budget_inv_commit:
  fixes mempool :: "'h::{finite, linorder} CTxMemPool"
  assumes ac: "ancestry_consistent mempool"
    and ag: "aggregates_consistent mempool"
    and wu: "within_uint64 mempool limits"
    and inv: "budget_inv mempool limits a (mapModifiedTx l)"
    and sel: "select_candidate mempool l = Some (it, modit, l1)"
    and nin: "it \<notin> inBlock a"
    and tp: "TestPackage limits a (fst (package_of mempool it modit))
               (snd (snd (package_of mempool it modit)))"
    and c: "(a2, l2) = commit_package mempool tie
               (insert it (onlyUnconfirmed a (CalculateMemPoolAncestors mempool it))) a l1"
  shows "budget_inv mempool limits a2 (mapModifiedTx l2)"
proof -
  let ?anc = "CalculateMemPoolAncestors mempool"
  let ?P = "insert it (onlyUnconfirmed a (?anc it))"
  let ?ps = "fst (package_of mempool it modit)"
  let ?pc = "snd (snd (package_of mempool it modit))"
  have P: "?P = insert it (?anc it) - inBlock a" by (rule package_eq [OF nin])
  have PI: "?P \<inter> inBlock a = {}" unfolding P by auto
  have a2: "a2 = fst (commit_package mempool tie ?P a l1)" using c by (metis fst_conv)
  have l2: "l2 = snd (commit_package mempool tie ?P a l1)" using c by (metis snd_conv)
  have M1: "mapModifiedTx l1 = mapModifiedTx l"
    using select_candidate_cases [OF sel] by auto
  note cov = package_covered [OF ag inv sel nin, folded P]
  have size0: "0 \<le> sum (GetTxSize mempool) X" for X
    using ag by (intro sum_nonneg) (simp add: aggregates_consistent_def)
  have sig0: "0 \<le> sum (GetSigOpCost mempool) X" for X
    using ag by (intro sum_nonneg) (simp add: aggregates_consistent_def)
  have wt0: "0 \<le> sum (GetTxWeight mempool) X" for X
    using wu by (intro sum_nonneg) (simp add: within_uint64_def)
  have i: "uint (nBlockWeight a) \<le> nBlockMaxWeight a" "nBlockMaxWeight a < 2 ^ 63"
    "uint (nBlockSigOpsCost a) \<le> MAX_BLOCK_SIGOPS_COST limits"
    using inv by (simp_all add: budget_inv_def)
  have lim: "MAX_BLOCK_SIGOPS_COST limits < 2 ^ 63" using wu by (simp add: within_uint64_def)
  have ps: "0 \<le> ?ps" "WITNESS_SCALE_FACTOR * ?ps < 2 ^ 63"
  proof -
    show "0 \<le> ?ps" using size0 [of ?P] cov(1) by linarith
    have "WITNESS_SCALE_FACTOR * ?ps \<le> WITNESS_SCALE_FACTOR * GetSizeWithAncestors mempool it"
      using cov(2) by (simp add: WITNESS_SCALE_FACTOR_def)
    moreover have "WITNESS_SCALE_FACTOR * GetSizeWithAncestors mempool it < 2 ^ 63"
      using wu by (simp add: within_uint64_def)
    ultimately show "WITNESS_SCALE_FACTOR * ?ps < 2 ^ 63" by linarith
  qed
  have pc: "0 \<le> ?pc" "?pc < 2 ^ 63"
  proof -
    show "0 \<le> ?pc" using sig0 [of ?P] cov(3) by linarith
    have "GetSigOpCostWithAncestors mempool it < 2 ^ 63"
      using wu by (simp add: within_uint64_def)
    with cov(4) show "?pc < 2 ^ 63" by linarith
  qed
  have fit: "uint (nBlockWeight a) + WITNESS_SCALE_FACTOR * ?ps < nBlockMaxWeight a"
    "uint (nBlockSigOpsCost a) + ?pc < MAX_BLOCK_SIGOPS_COST limits"
    using tp unfolding TestPackage_iff [OF i lim ps pc] by simp_all
  have w: "uint (nBlockWeight a2) \<le> nBlockMaxWeight a2"
  proof -
    have "sum (GetTxWeight mempool) ?P \<le> WITNESS_SCALE_FACTOR * sum (GetTxSize mempool) ?P"
      by (rule weight_le_scaled_size [OF ag])
    also have "\<dots> \<le> WITNESS_SCALE_FACTOR * ?ps"
      using cov(1) by (simp add: WITNESS_SCALE_FACTOR_def)
    finally have le: "uint (nBlockWeight a) + sum (GetTxWeight mempool) ?P < nBlockMaxWeight a"
      using fit(1) by linarith
    have "uint (nBlockWeight a + word_of_int (sum (GetTxWeight mempool) ?P))
            = uint (nBlockWeight a) + sum (GetTxWeight mempool) ?P"
      using le i(2) by (intro uint_plus_of_int wt0) simp
    then show ?thesis unfolding a2 using le by (simp add: counters_commit_package)
  qed
  have s: "uint (nBlockSigOpsCost a2) \<le> MAX_BLOCK_SIGOPS_COST limits"
  proof -
    have le: "uint (nBlockSigOpsCost a) + sum (GetSigOpCost mempool) ?P
                < MAX_BLOCK_SIGOPS_COST limits"
      using fit(2) cov(3) by linarith
    have "uint (nBlockSigOpsCost a + word_of_int (sum (GetSigOpCost mempool) ?P))
            = uint (nBlockSigOpsCost a) + sum (GetSigOpCost mempool) ?P"
      using le lim by (intro uint_plus_of_int sig0) simp
    then show ?thesis unfolding a2 using le by (simp add: counters_commit_package)
  qed
  have mx: "nBlockMaxWeight a2 < 2 ^ 63"
    unfolding a2 using i(2) by (simp add: counters_commit_package)
  have I2: "inBlock a2 = inBlock a \<union> ?P"
    unfolding a2 by (rule inBlock_commit_package)
  have d: "distinct (map iter (mapModifiedTx l2))"
    unfolding l2 using inv M1 by (intro distinct_commit_package) (simp add: budget_inv_def)
  have r: "sum (GetTxSize mempool) (insert d (?anc d) - inBlock a2)
             \<le> nSizeWithAncestors (view mempool (mapModifiedTx l2) d)
         \<and> nSizeWithAncestors (view mempool (mapModifiedTx l2) d) \<le> GetSizeWithAncestors mempool d
         \<and> sum (GetSigOpCost mempool) (insert d (?anc d) - inBlock a2)
             \<le> nSigOpCostWithAncestors (view mempool (mapModifiedTx l2) d)
         \<and> nSigOpCostWithAncestors (view mempool (mapModifiedTx l2) d)
             \<le> GetSigOpCostWithAncestors mempool d"
    if "d \<notin> inBlock a2" for d
  proof -
    from that have dI: "d \<notin> inBlock a" and dP: "d \<notin> ?P" unfolding I2 by auto
    have v: "view mempool (mapModifiedTx l2) d
               = dec_by mempool (?P \<inter> ?anc d) (view mempool (mapModifiedTx l) d)"
      unfolding l2 using view_commit_package [OF ac dP, of tie a l1] M1 by simp
    have old: "sum (GetTxSize mempool) (insert d (?anc d) - inBlock a)
             \<le> nSizeWithAncestors (view mempool (mapModifiedTx l) d)"
      "nSizeWithAncestors (view mempool (mapModifiedTx l) d) \<le> GetSizeWithAncestors mempool d"
      "sum (GetSigOpCost mempool) (insert d (?anc d) - inBlock a)
             \<le> nSigOpCostWithAncestors (view mempool (mapModifiedTx l) d)"
      "nSigOpCostWithAncestors (view mempool (mapModifiedTx l) d)
             \<le> GetSigOpCostWithAncestors mempool d"
      using inv dI by (simp_all add: budget_inv_def)
    show ?thesis
      unfolding I2 v rest_after_commit [OF PI dP]
      using old size0 [of "?P \<inter> ?anc d"] sig0 [of "?P \<inter> ?anc d"] by (simp add: dec_by_def)
  qed
  show ?thesis unfolding budget_inv_def using w mx s d r by blast
qed

lemma budget_inv_step:
  fixes mempool :: "'h::{finite, linorder} CTxMemPool"
  assumes ac: "ancestry_consistent mempool"
    and ag: "aggregates_consistent mempool"
    and wu: "within_uint64 mempool limits"
    and inv: "budget_inv mempool limits a (mapModifiedTx l)"
    and out: "outcome_state (loop_body mempool limits tie a l) = Some (a2, l2)"
  shows "budget_inv mempool limits a2 (mapModifiedTx l2)"
  using loop_body_cases [OF out]
proof (elim disjE conjE exE)
  fix S assume "a2 = a" "mapModifiedTx l2 = filter (\<lambda>e. iter e \<notin> S) (mapModifiedTx l)"
  then show ?thesis using budget_inv_filter [OF ag inv, of S] by simp
next
  fix it modit l1
  assume "select_candidate mempool l = Some (it, modit, l1)" "it \<notin> inBlock a"
    "TestPackage limits a (fst (package_of mempool it modit))
               (snd (snd (package_of mempool it modit)))"
    "(a2, l2) = commit_package mempool tie
               (insert it (onlyUnconfirmed a (CalculateMemPoolAncestors mempool it))) a l1"
  then show ?thesis by (rule budget_inv_commit [OF ac ag wu inv])
qed

lemma budget_inv_start:
  fixes mempool :: "'h::{finite, linorder} CTxMemPool"
  assumes ag: "aggregates_consistent mempool"
    and wu: "within_uint64 mempool limits"
    and "400 \<le> MAX_BLOCK_SIGOPS_COST limits"
  shows "budget_inv mempool limits
           (CreateNewBlock_prelude chain (BlockAssembler_new limits options) w)
           (snd (UpdatePackagesForAdded mempool
                  (inBlock (CreateNewBlock_prelude chain (BlockAssembler_new limits options) w)) []))"
proof -
  let ?a = "CreateNewBlock_prelude chain (BlockAssembler_new limits options) w :: 'h BlockAssembler"
  have f: "nBlockWeight ?a = 4000" "nBlockSigOpsCost ?a = 400" "inBlock ?a = {}"
    "4000 \<le> nBlockMaxWeight ?a"
    by (simp_all add: CreateNewBlock_prelude_def Let_def resetBlock_def BlockAssembler_new_def)
  have "nBlockMaxWeight ?a \<le> max 4000 (MAX_BLOCK_WEIGHT limits - 4000)"
    by (simp add: CreateNewBlock_prelude_def Let_def resetBlock_def BlockAssembler_new_def)
  moreover have "MAX_BLOCK_WEIGHT limits \<le> 2 ^ 63" using wu by (simp add: within_uint64_def)
  ultimately have m: "nBlockMaxWeight ?a < 2 ^ 63" by simp
  have u: "snd (UpdatePackagesForAdded mempool {} []) = []"
    by (simp add: UpdatePackagesForAdded_def)
  show ?thesis
    unfolding budget_inv_def f u using assms(3) fresh_covers [OF ag, of _ "{}"] f(4) m
    by (simp add: view_def modified_find_def fresh_cached)
qed

text \<open>
  The selection loop runs to its end on a pool with consistent ancestry: the assertion of
  line 375 cannot fail, because the overlay holds no transaction of the block and the
  block is closed under ancestors.
\<close>

definition assert_inv :: "'h CTxMemPool \<Rightarrow> 'h BlockAssembler \<Rightarrow> 'h addPackageTxs_locals \<Rightarrow> bool" where
  "assert_inv mempool a l \<longleftrightarrow>
     (\<forall>d. modified_count (mapModifiedTx l) d \<longrightarrow> d \<notin> inBlock a)
     \<and> (\<forall>x \<in> inBlock a. CalculateMemPoolAncestors mempool x \<subseteq> inBlock a)"

lemma modified_count_iff: "modified_count mapModified d \<longleftrightarrow> d \<in> iter ` set mapModified"
  by (simp add: modified_count_def modified_find_None)

lemma modified_count_filter:
  "modified_count (filter (\<lambda>e. iter e \<notin> S) mapModified) d
     \<longleftrightarrow> d \<notin> S \<and> modified_count mapModified d"
  by (auto simp: modified_count_iff)

lemma modified_count_after_update:
  "modified_count (snd (UpdatePackagesForAdded mempool S
                          (filter (\<lambda>e. iter e \<notin> S) mapModified))) d
     \<longleftrightarrow> d \<notin> S \<and> (modified_count mapModified d
                      \<or> (\<exists>x \<in> S. d \<in> CalculateDescendants mempool x))"
  by (auto simp: present_UpdatePackagesForAdded modified_count_filter)

lemma closed_commit:
  assumes ac: "ancestry_consistent mempool"
    and cl: "\<forall>x \<in> I. CalculateMemPoolAncestors mempool x \<subseteq> I"
    and x: "x \<in> I \<union> (insert it (CalculateMemPoolAncestors mempool it) - I)"
  shows "CalculateMemPoolAncestors mempool x
           \<subseteq> I \<union> (insert it (CalculateMemPoolAncestors mempool it) - I)"
proof (cases "x \<in> I")
  case True
  then show ?thesis using cl by auto
next
  case False
  with x have "x = it \<or> x \<in> CalculateMemPoolAncestors mempool it" by auto
  then have "CalculateMemPoolAncestors mempool x \<subseteq> CalculateMemPoolAncestors mempool it"
    using ac by (auto simp: ancestry_consistent_def)
  then show ?thesis by auto
qed

lemma assert_inv_step:
  fixes mempool :: "'h::{finite, linorder} CTxMemPool"
  assumes ac: "ancestry_consistent mempool"
    and inv: "assert_inv mempool a l"
    and out: "outcome_state (loop_body mempool limits tie a l) = Some (a2, l2)"
  shows "assert_inv mempool a2 l2"
  using loop_body_cases [OF out]
proof (elim disjE conjE exE)
  fix S assume "a2 = a" "mapModifiedTx l2 = filter (\<lambda>e. iter e \<notin> S) (mapModifiedTx l)"
  then show ?thesis using inv by (simp add: assert_inv_def modified_count_filter)
next
  fix it modit l1
  assume sel: "select_candidate mempool l = Some (it, modit, l1)"
    and nin: "it \<notin> inBlock a"
    and c: "(a2, l2) = commit_package mempool tie
               (insert it (onlyUnconfirmed a (CalculateMemPoolAncestors mempool it))) a l1"
  let ?anc = "CalculateMemPoolAncestors mempool"
  let ?P = "insert it (onlyUnconfirmed a (?anc it))"
  have P: "?P = insert it (?anc it) - inBlock a" by (rule package_eq [OF nin])
  have a2: "a2 = fst (commit_package mempool tie ?P a l1)" using c by (metis fst_conv)
  have l2: "l2 = snd (commit_package mempool tie ?P a l1)" using c by (metis snd_conv)
  have M1: "mapModifiedTx l1 = mapModifiedTx l"
    using select_candidate_cases [OF sel] by auto
  have I2: "inBlock a2 = inBlock a \<union> ?P" unfolding a2 by (rule inBlock_commit_package)
  have cl0: "\<forall>x \<in> inBlock a. ?anc x \<subseteq> inBlock a" using inv by (simp add: assert_inv_def)
  have cl: "\<forall>x \<in> inBlock a2. ?anc x \<subseteq> inBlock a2"
    unfolding I2 P using closed_commit [OF ac cl0] by blast
  have M2: "mapModifiedTx l2 = snd (UpdatePackagesForAdded mempool ?P
              (filter (\<lambda>e. iter e \<notin> ?P) (mapModifiedTx l)))"
    unfolding l2 mapModifiedTx_commit_package M1 ..
  have "d \<notin> inBlock a2" if mc: "modified_count (mapModifiedTx l2) d" for d
  proof
    assume d2: "d \<in> inBlock a2"
    from mc have dP: "d \<notin> ?P"
      and alt: "modified_count (mapModifiedTx l) d
                \<or> (\<exists>x \<in> ?P. d \<in> CalculateDescendants mempool x)"
      unfolding M2 modified_count_after_update by blast+
    from d2 dP have dI: "d \<in> inBlock a" unfolding I2 by blast
    from alt show False
    proof
      assume "modified_count (mapModifiedTx l) d"
      with inv dI show False by (simp add: assert_inv_def)
    next
      assume "\<exists>x \<in> ?P. d \<in> CalculateDescendants mempool x"
      then obtain x where x: "x \<in> ?P" "d \<in> CalculateDescendants mempool x" by blast
      have "d \<noteq> x" using x(1) dP by blast
      with x(2) have "x \<in> ?anc d" by (simp add: descendants_iff [OF ac])
      with cl0 dI have "x \<in> inBlock a" by blast
      with x(1) show False unfolding P by simp
    qed
  qed
  with cl show ?thesis by (simp add: assert_inv_def)
qed

lemma assert_inv_no_abort:
  fixes mempool :: "'h::{finite, linorder} CTxMemPool"
  assumes inv: "assert_inv mempool a l"
    and run: "\<not> (mi l = [] \<and> mapModifiedTx l = [])"
  shows "outcome_state (loop_body mempool limits tie a l) \<noteq> None"
proof (cases "mi l \<noteq> [] \<and> SkipMapTxEntry a (hd (mi l)) (mapModifiedTx l) (failedTx l)")
  case True
  then show ?thesis by (simp add: loop_body_def)
next
  case False
  have "select_candidate mempool l \<noteq> None"
    using run by (auto simp: select_candidate_def modified_begin_None split: list.splits option.splits)
  then obtain it modit l1 where sel: "select_candidate mempool l = Some (it, modit, l1)"
    by (cases "select_candidate mempool l") auto
  have nin: "it \<notin> inBlock a"
    using select_candidate_cases [OF sel]
  proof (elim disjE conjE exE)
    assume "mi l \<noteq> []" "it = hd (mi l)"
    with False show ?thesis by (simp add: SkipMapTxEntry_def)
  next
    fix m assume "m \<in> set (mapModifiedTx l)" "it = iter m"
    then have "modified_count (mapModifiedTx l) it" by (auto simp: modified_count_iff)
    with inv show ?thesis by (simp add: assert_inv_def)
  qed
  have ev: "outcome_state (evaluate_candidate mempool limits tie a it modit l1) \<noteq> None"
    by (simp add: evaluate_candidate_def Let_def split: prod.splits)
  show ?thesis using False sel nin ev by (auto simp: loop_body_def)
qed

lemma addPackageTxs_loop_completes:
  fixes mempool :: "'h::{finite, linorder} CTxMemPool"
  assumes "ancestry_consistent mempool" and "assert_inv mempool a l"
  shows "\<exists>a' l'. addPackageTxs_loop mempool limits tie a l = Inr (a', l')"
  using assms
proof (induction mempool limits tie a l rule: addPackageTxs_loop.induct)
  case (1 mempool limits tie a l)
  show ?case
  proof (cases "mi l = [] \<and> mapModifiedTx l = []")
    case True
    then show ?thesis by (simp add: addPackageTxs_loop.simps [of mempool limits tie a l])
  next
    case False
    note na = assert_inv_no_abort [OF "1.prems"(2) False, of limits tie]
    show ?thesis
    proof (cases "loop_body mempool limits tie a l")
      case (Continue a2 l2)
      then have "assert_inv mempool a2 l2"
        using assert_inv_step [OF "1.prems", of limits tie a2 l2] by simp
      then have "\<exists>a' l'. addPackageTxs_loop mempool limits tie a2 l2 = Inr (a', l')"
        by (rule "1.IH" [OF False Continue "1.prems"(1)])
      then show ?thesis
        using False Continue by (auto simp: addPackageTxs_loop.simps [of mempool limits tie a l])
    next
      case (Return a2 l2)
      then show ?thesis
        using False by (auto simp: addPackageTxs_loop.simps [of mempool limits tie a l])
    next
      case (Break a2 l2)
      then show ?thesis
        using False by (auto simp: addPackageTxs_loop.simps [of mempool limits tie a l])
    next
      case AssertFailed
      with na show ?thesis by simp
    qed
  qed
qed

lemma assert_inv_start:
  fixes mempool :: "'h::{finite, linorder} CTxMemPool"
  shows "assert_inv mempool (CreateNewBlock_prelude chain a0 w)
       \<lparr>mi = mapTx_ancestor_score mempool,
        mapModifiedTx = snd (UpdatePackagesForAdded mempool
                               (inBlock (CreateNewBlock_prelude chain a0 w)) []),
        failedTx = {}, nConsecutiveFailed = 0, nPackagesSelected = n, nDescendantsUpdated = m\<rparr>"
proof -
  have i: "inBlock (CreateNewBlock_prelude chain a0 w) = {}"
    by (simp add: CreateNewBlock_prelude_def Let_def resetBlock_def)
  show ?thesis by (simp add: assert_inv_def i)
qed

lemma selection_completes:
  fixes mempool :: "'h::{finite, linorder} CTxMemPool"
  assumes "ancestry_consistent mempool"
  shows "\<exists>a l. addPackageTxs mempool limits tie (CreateNewBlock_prelude chain a0 w) n m = Inr (a, l)"
  unfolding addPackageTxs_def
  by (rule addPackageTxs_loop_completes [OF assms assert_inv_start])

text \<open>
  Claim C1. For a consistent pool within the bounds above, any options and any chain
  state, the selection loop that \<open>CreateNewBlock\<close> runs finishes, and when it has finished
  the block weight is at most \<open>nBlockMaxWeight\<close> and the sig-op cost at most
  \<open>MAX_BLOCK_SIGOPS_COST\<close> (a constant that is not under src/ and must leave room for the
  400 reserved for the coinbase). The proof is the invariant above: a package is committed
  only after \<open>TestPackage\<close> accepted the size and sig-op cost reported for it
  (\<open>loop_body_cases\<close>), within the bounds the sums of the test do not wrap
  (\<open>TestPackage_iff\<close>), and the reported values bound what \<open>AddToBlock\<close> adds
  (\<open>budget_inv_commit\<close>).
\<close>

theorem selection_respects_budget:
  fixes mempool :: "'h::{finite, linorder} CTxMemPool"
  assumes "ancestry_consistent mempool"
    and "aggregates_consistent mempool"
    and "within_uint64 mempool limits"
    and "400 \<le> MAX_BLOCK_SIGOPS_COST limits"
  shows "\<exists>a l. addPackageTxs mempool limits tie
                  (CreateNewBlock_prelude chain (BlockAssembler_new limits options) fMineWitnessTx)
                  0 0 = Inr (a, l)
           \<and> uint (nBlockWeight a) \<le> nBlockMaxWeight a
           \<and> uint (nBlockSigOpsCost a) \<le> MAX_BLOCK_SIGOPS_COST limits"
proof -
  from selection_completes [OF assms(1)] obtain a l where
    run: "addPackageTxs mempool limits tie
            (CreateNewBlock_prelude chain (BlockAssembler_new limits options) fMineWitnessTx)
            0 0 = Inr (a, l)"
    by blast
  have "budget_inv mempool limits a (mapModifiedTx l)"
    by (rule addPackageTxs_loop_invariant
          [where P = "\<lambda>a l. budget_inv mempool limits a (mapModifiedTx l)",
           OF run [unfolded addPackageTxs_def]])
       (simp_all add: budget_inv_start [OF assms(2,3,4)] budget_inv_step [OF assms(1,2,3)])
  then show ?thesis using run by (auto simp: budget_inv_def)
qed

lemma pool3_ancestry: "ancestry_consistent pool3"
  unfolding ancestry_consistent_def
proof (intro conjI allI)
  fix h a d :: txid
  show "h \<notin> CalculateMemPoolAncestors pool3 h"
    by (cases h) (simp_all add: pool3_def)
  show "a \<in> CalculateMemPoolAncestors pool3 h \<longrightarrow>
          CalculateMemPoolAncestors pool3 a \<subseteq> CalculateMemPoolAncestors pool3 h"
    by (cases h; cases a) (simp_all add: pool3_def)
  show "d \<in> CalculateDescendants pool3 h \<longleftrightarrow> d = h \<or> h \<in> CalculateMemPoolAncestors pool3 d"
    by (cases h; cases d) (simp_all add: pool3_def)
  show "GetCountWithAncestors pool3 h = card (CalculateMemPoolAncestors pool3 h) + 1"
    by (cases h) (simp_all add: pool3_def)
qed

lemma pool3_aggregates: "aggregates_consistent pool3"
  unfolding aggregates_consistent_def
proof (intro conjI allI)
  fix h :: txid
  show "0 \<le> GetTxSize pool3 h" by (cases h) (simp_all add: pool3_def)
  show "0 \<le> GetSigOpCost pool3 h" by (cases h) (simp_all add: pool3_def)
  show "GetTxWeight pool3 h \<le> WITNESS_SCALE_FACTOR * GetTxSize pool3 h"
    by (cases h) (simp_all add: pool3_def WITNESS_SCALE_FACTOR_def)
  show "GetSizeWithAncestors pool3 h
          = sum (GetTxSize pool3) (insert h (CalculateMemPoolAncestors pool3 h))"
    by (cases h) (simp_all add: pool3_def)
  show "GetModFeesWithAncestors pool3 h
          = sum (GetModifiedFee pool3) (insert h (CalculateMemPoolAncestors pool3 h))"
    by (cases h) (simp_all add: pool3_def)
  show "GetSigOpCostWithAncestors pool3 h
          = sum (GetSigOpCost pool3) (insert h (CalculateMemPoolAncestors pool3 h))"
    by (cases h) (simp_all add: pool3_def)
qed

lemma pool3_within_uint64: "within_uint64 pool3 limits0"
  unfolding within_uint64_def
proof (intro conjI allI)
  fix h :: txid
  show "MAX_BLOCK_WEIGHT limits0 \<le> 2 ^ 63" by (simp add: limits0_def)
  show "MAX_BLOCK_SIGOPS_COST limits0 < 2 ^ 63" by (simp add: limits0_def)
  show "0 \<le> GetTxWeight pool3 h" by (cases h) (simp_all add: pool3_def)
  show "WITNESS_SCALE_FACTOR * GetSizeWithAncestors pool3 h < 2 ^ 63"
    by (cases h) (simp_all add: pool3_def WITNESS_SCALE_FACTOR_def)
  show "GetSigOpCostWithAncestors pool3 h < 2 ^ 63"
    by (cases h) (simp_all add: pool3_def)
qed

text \<open>
  Claim C1 on the example pool: the loop ends with weight 4800 of 6000 and sig-op cost
  408.
\<close>

theorem selection_respects_budget_witness:
  "\<exists>a l. addPackageTxs pool3 limits0 tie0
            (CreateNewBlock_prelude chain0 (BlockAssembler_new limits0 options0) True) 0 0
          = Inr (a, l)
     \<and> nBlockWeight a = 4800 \<and> nBlockMaxWeight a = 6000 \<and> nBlockSigOpsCost a = 408
     \<and> uint (nBlockWeight a) \<le> nBlockMaxWeight a
     \<and> uint (nBlockSigOpsCost a) \<le> MAX_BLOCK_SIGOPS_COST limits0"
proof -
  have m: "400 \<le> MAX_BLOCK_SIGOPS_COST limits0" by (simp add: limits0_def)
  from selection_respects_budget [OF pool3_ancestry pool3_aggregates pool3_within_uint64 m]
  obtain a l where run: "addPackageTxs pool3 limits0 tie0
            (CreateNewBlock_prelude chain0 (BlockAssembler_new limits0 options0) True) 0 0
          = Inr (a, l)"
    and b: "uint (nBlockWeight a) \<le> nBlockMaxWeight a"
           "uint (nBlockSigOpsCost a) \<le> MAX_BLOCK_SIGOPS_COST limits0"
    by blast
  have "case addPackageTxs pool3 limits0 tie0
            (CreateNewBlock_prelude chain0 (BlockAssembler_new limits0 options0) True) 0 0 of
          Inl e \<Rightarrow> False
        | Inr (a, l) \<Rightarrow> nBlockWeight a = 4800 \<and> nBlockMaxWeight a = 6000
                       \<and> nBlockSigOpsCost a = 408"
    by code_simp
  then have "nBlockWeight a = 4800 \<and> nBlockMaxWeight a = 6000 \<and> nBlockSigOpsCost a = 408"
    unfolding run by simp
  with run b show ?thesis by blast
qed

text \<open>
  The bound on the sizes cannot be dropped. In the pool below \<open>TxA\<close> has size \<open>2^62\<close> and
  weight \<open>2^63\<close>; the pool is consistent, but the product of line 213 wraps to 0 for the
  package of \<open>TxA\<close>, the test accepts it for the block that holds the reserved 4000, and
  \<open>AddToBlock\<close> leaves the weight counter at \<open>2^63 + 4000\<close>, above the maximum of 6000.
\<close>

definition pool_big :: "txid CTxMemPool" where
  "pool_big =
     pool3\<lparr>GetTxSize := (\<lambda>t. case t of TxA \<Rightarrow> 2 ^ 62 | TxB \<Rightarrow> 100 | TxD \<Rightarrow> 300),
           GetTxWeight := (\<lambda>t. case t of TxA \<Rightarrow> 2 ^ 63 | TxB \<Rightarrow> 400 | TxD \<Rightarrow> 1200),
           GetSizeWithAncestors :=
             (\<lambda>t. case t of TxA \<Rightarrow> 2 ^ 62 | TxB \<Rightarrow> 100 | TxD \<Rightarrow> 2 ^ 62 + 400)\<rparr>"

definition options_free :: BlockAssembler_Options where
  "options_free = \<lparr>opt_blockMinFeeRate = (\<lambda>size. 0), opt_nBlockMaxWeight = 6000\<rparr>"

lemma selection_overruns_beyond_bounds:
  "ancestry_consistent pool_big
   \<and> aggregates_consistent pool_big
   \<and> \<not> within_uint64 pool_big limits0
   \<and> TestPackage limits0
        (CreateNewBlock_prelude chain0 (BlockAssembler_new limits0 options_free) True) (2 ^ 62) 4
   \<and> (case addPackageTxs pool_big limits0 tie0
              (CreateNewBlock_prelude chain0 (BlockAssembler_new limits0 options_free) True) 0 0 of
         Inl e \<Rightarrow> False
       | Inr (a, l) \<Rightarrow> inBlock a = {TxA} \<and> nBlockMaxWeight a = 6000
                      \<and> uint (nBlockWeight a) = 2 ^ 63 + 4000)"
proof -
  have ac: "ancestry_consistent pool_big"
    using pool3_ancestry by (simp add: ancestry_consistent_def pool_big_def)
  have ag: "aggregates_consistent pool_big"
    unfolding aggregates_consistent_def
  proof (intro conjI allI)
    fix h :: txid
    show "0 \<le> GetTxSize pool_big h" by (cases h) (simp_all add: pool_big_def)
    show "0 \<le> GetSigOpCost pool_big h" by (cases h) (simp_all add: pool_big_def pool3_def)
    show "GetTxWeight pool_big h \<le> WITNESS_SCALE_FACTOR * GetTxSize pool_big h"
      by (cases h) (simp_all add: pool_big_def WITNESS_SCALE_FACTOR_def)
    show "GetSizeWithAncestors pool_big h
            = sum (GetTxSize pool_big) (insert h (CalculateMemPoolAncestors pool_big h))"
      by (cases h) (simp_all add: pool_big_def pool3_def)
    show "GetModFeesWithAncestors pool_big h
            = sum (GetModifiedFee pool_big) (insert h (CalculateMemPoolAncestors pool_big h))"
      by (cases h) (simp_all add: pool_big_def pool3_def)
    show "GetSigOpCostWithAncestors pool_big h
            = sum (GetSigOpCost pool_big) (insert h (CalculateMemPoolAncestors pool_big h))"
      by (cases h) (simp_all add: pool_big_def pool3_def)
  qed
  have nw: "\<not> within_uint64 pool_big limits0"
  proof
    assume "within_uint64 pool_big limits0"
    then have "WITNESS_SCALE_FACTOR * GetSizeWithAncestors pool_big TxA < 2 ^ 63"
      by (simp add: within_uint64_def)
    then show False by (simp add: pool_big_def WITNESS_SCALE_FACTOR_def)
  qed
  have tp: "TestPackage limits0
        (CreateNewBlock_prelude chain0 (BlockAssembler_new limits0 options_free) True) (2 ^ 62) 4"
    by (simp add: TestPackage_def CreateNewBlock_prelude_def Let_def resetBlock_def
        BlockAssembler_new_def options_free_def limits0_def WITNESS_SCALE_FACTOR_def)
  have run: "case addPackageTxs pool_big limits0 tie0
              (CreateNewBlock_prelude chain0 (BlockAssembler_new limits0 options_free) True) 0 0 of
         Inl e \<Rightarrow> False
       | Inr (a, l) \<Rightarrow> inBlock a = {TxA} \<and> nBlockMaxWeight a = 6000
                      \<and> uint (nBlockWeight a) = 2 ^ 63 + 4000"
    by code_simp
  show ?thesis using ac ag nw tp run by blast
qed

section \<open>The overlay invariant\<close>

text \<open>
  For tracing: the outcome of at most \<open>n\<close> passes of the loop. \<open>Continue a l\<close> is the state
  after the passes, or the state in which the loop condition failed. It is a prefix of the
  loop (\<open>loop_passes_prefix\<close>).
\<close>

fun loop_passes ::
  "nat \<Rightarrow> 'h::{finite, linorder} CTxMemPool \<Rightarrow> consensus_limits \<Rightarrow> ('h \<Rightarrow> nat)
     \<Rightarrow> 'h BlockAssembler \<Rightarrow> 'h addPackageTxs_locals \<Rightarrow> 'h loop_outcome" where
  "loop_passes 0 mempool limits tie a l = Continue a l"
| "loop_passes (Suc n) mempool limits tie a l =
     (if mi l = [] \<and> mapModifiedTx l = [] then Continue a l
      else (case loop_body mempool limits tie a l of
              Continue a' l' \<Rightarrow> loop_passes n mempool limits tie a' l'
            | out \<Rightarrow> out))"

lemma loop_passes_prefix:
  "loop_passes n mempool limits tie a l = Continue a' l' \<Longrightarrow>
     addPackageTxs_loop mempool limits tie a l = addPackageTxs_loop mempool limits tie a' l'"
proof (induction n arbitrary: a l)
  case 0
  then show ?case by simp
next
  case (Suc n)
  show ?case
  proof (cases "mi l = [] \<and> mapModifiedTx l = []")
    case True
    with Suc.prems show ?thesis by simp
  next
    case False
    show ?thesis
    proof (cases "loop_body mempool limits tie a l")
      case (Continue a2 l2)
      with Suc.prems False have "loop_passes n mempool limits tie a2 l2 = Continue a' l'"
        by simp
      then have "addPackageTxs_loop mempool limits tie a2 l2
                   = addPackageTxs_loop mempool limits tie a' l'"
        by (rule Suc.IH)
      moreover have "addPackageTxs_loop mempool limits tie a l
                   = addPackageTxs_loop mempool limits tie a2 l2"
        using False Continue by (auto simp: addPackageTxs_loop.simps [of mempool limits tie a l])
      ultimately show ?thesis by simp
    next
      case (Return a2 l2)
      with Suc.prems False show ?thesis by simp
    next
      case (Break a2 l2)
      with Suc.prems False show ?thesis by simp
    next
      case AssertFailed
      with Suc.prems False show ?thesis by simp
    qed
  qed
qed

text \<open>
  The invariant of the spec for an included set \<open>I\<close>: every transaction outside \<open>I\<close> with an
  ancestor in \<open>I\<close> has an overlay entry, and what the overlay reports for a transaction
  \<open>d\<close> outside \<open>I\<close> (its entry, or the cached aggregates when it has none) is the cached
  aggregates of \<open>d\<close> minus the individual size, modified fee and sig-op cost of each
  ancestor of \<open>d\<close> in \<open>I\<close>.
\<close>

definition overlay_exact ::
  "'h CTxMemPool \<Rightarrow> 'h set \<Rightarrow> 'h indexed_modified_transaction_set \<Rightarrow> bool" where
  "overlay_exact mempool I mapModified \<longleftrightarrow>
     (\<forall>d. d \<notin> I \<longrightarrow>
        (I \<inter> CalculateMemPoolAncestors mempool d \<noteq> {} \<longrightarrow> modified_count mapModified d)
        \<and> view mempool mapModified d
            = dec_by mempool (I \<inter> CalculateMemPoolAncestors mempool d)
                (CTxMemPoolModifiedEntry_of mempool d))"

lemma modified_find_view:
  "modified_find mapModified d =
     (if modified_count mapModified d then Some (view mempool mapModified d) else None)"
  by (cases "modified_find mapModified d") (simp_all add: modified_count_def view_def)

text \<open>
  Claim C6. \<open>UpdatePackagesForAdded\<close> maintains the invariant: if the overlay is exact for
  the included set \<open>I\<close> and \<open>alreadyAdded\<close> is disjoint from \<open>I\<close>, it is exact for
  \<open>I \<union> alreadyAdded\<close> after the call. What a call does to the entries, whatever the
  overlay was: a transaction \<open>d\<close> outside \<open>alreadyAdded\<close> with an ancestor in
  \<open>alreadyAdded\<close> has an entry afterwards, which is the entry it had before (a fresh entry
  made from the cached aggregates when it had none) minus the individual size, modified
  fee and sig-op cost of each ancestor of \<open>d\<close> in \<open>alreadyAdded\<close>; every other entry is
  left as it was.
\<close>

theorem UpdatePackagesForAdded_maintains_overlay:
  fixes mempool :: "'h::{finite, linorder} CTxMemPool"
  assumes ac: "ancestry_consistent mempool"
  shows "(overlay_exact mempool I mapModified \<and> alreadyAdded \<inter> I = {} \<longrightarrow>
            overlay_exact mempool (I \<union> alreadyAdded)
              (snd (UpdatePackagesForAdded mempool alreadyAdded mapModified)))
       \<and> (\<forall>d. modified_find (snd (UpdatePackagesForAdded mempool alreadyAdded mapModified)) d =
               (if d \<notin> alreadyAdded \<and> alreadyAdded \<inter> CalculateMemPoolAncestors mempool d \<noteq> {}
                then Some (dec_by mempool (alreadyAdded \<inter> CalculateMemPoolAncestors mempool d)
                             (case modified_find mapModified d of
                                None \<Rightarrow> CTxMemPoolModifiedEntry_of mempool d
                              | Some e \<Rightarrow> e))
                else modified_find mapModified d))"
proof (intro conjI impI allI)
  let ?M' = "snd (UpdatePackagesForAdded mempool alreadyAdded mapModified)"
  let ?anc = "CalculateMemPoolAncestors mempool"
  have step: "view mempool ?M' d = dec_by mempool (alreadyAdded \<inter> ?anc d) (view mempool mapModified d)"
    if "d \<notin> alreadyAdded" for d
    using that by (simp add: view_UpdatePackagesForAdded added_ancestors [OF ac])
  have pres: "modified_count ?M' d \<longleftrightarrow>
                modified_count mapModified d \<or> (d \<notin> alreadyAdded \<and> alreadyAdded \<inter> ?anc d \<noteq> {})"
    for d
  proof (cases "d \<in> alreadyAdded")
    case True
    then show ?thesis by (simp add: present_UpdatePackagesForAdded)
  next
    case False
    then have "(\<exists>x\<in>alreadyAdded. d \<in> CalculateDescendants mempool x)
                 \<longleftrightarrow> alreadyAdded \<inter> ?anc d \<noteq> {}"
      using added_ancestors [OF ac False] by blast
    then show ?thesis using False by (simp add: present_UpdatePackagesForAdded)
  qed
  {
    fix d
    show "modified_find ?M' d =
               (if d \<notin> alreadyAdded \<and> alreadyAdded \<inter> ?anc d \<noteq> {}
                then Some (dec_by mempool (alreadyAdded \<inter> ?anc d)
                             (case modified_find mapModified d of
                                None \<Rightarrow> CTxMemPoolModifiedEntry_of mempool d
                              | Some e \<Rightarrow> e))
                else modified_find mapModified d)"
    proof (cases "d \<in> alreadyAdded")
      case True
      have "view mempool ?M' d = view mempool mapModified d"
        using True by (simp add: view_UpdatePackagesForAdded)
      moreover have "modified_count ?M' d \<longleftrightarrow> modified_count mapModified d"
        using True by (simp add: pres)
      ultimately have "modified_find ?M' d = modified_find mapModified d"
        by (simp add: modified_find_view [where mempool = mempool])
      with True show ?thesis by simp
    next
      case False
      show ?thesis
      proof (cases "alreadyAdded \<inter> ?anc d = {}")
        case True
        have "view mempool ?M' d = view mempool mapModified d"
          using step [OF False] True by simp
        moreover have "modified_count ?M' d \<longleftrightarrow> modified_count mapModified d"
          using True by (simp add: pres)
        ultimately have "modified_find ?M' d = modified_find mapModified d"
          by (simp add: modified_find_view [where mempool = mempool])
        with True show ?thesis by simp
      next
        case ne: False
        have "modified_count ?M' d" using False ne by (simp add: pres)
        then have "modified_find ?M' d = Some (view mempool ?M' d)"
          by (simp add: modified_find_view [where mempool = mempool])
        also have "\<dots> = Some (dec_by mempool (alreadyAdded \<inter> ?anc d) (view mempool mapModified d))"
          using step [OF False] by simp
        finally show ?thesis using False ne by (simp add: view_def)
      qed
    qed
  }
  assume "overlay_exact mempool I mapModified \<and> alreadyAdded \<inter> I = {}"
  then have ex: "overlay_exact mempool I mapModified" and dj: "alreadyAdded \<inter> I = {}"
    by simp_all
  have inv: "((I \<union> alreadyAdded) \<inter> ?anc d \<noteq> {} \<longrightarrow> modified_count ?M' d)
        \<and> view mempool ?M' d
            = dec_by mempool ((I \<union> alreadyAdded) \<inter> ?anc d) (CTxMemPoolModifiedEntry_of mempool d)"
    if "d \<notin> I \<union> alreadyAdded" for d
  proof
    from that have dI: "d \<notin> I" and dP: "d \<notin> alreadyAdded" by auto
    show "(I \<union> alreadyAdded) \<inter> ?anc d \<noteq> {} \<longrightarrow> modified_count ?M' d"
    proof
      assume "(I \<union> alreadyAdded) \<inter> ?anc d \<noteq> {}"
      then consider "I \<inter> ?anc d \<noteq> {}" | "alreadyAdded \<inter> ?anc d \<noteq> {}" by auto
      then show "modified_count ?M' d"
      proof cases
        case 1
        then have "modified_count mapModified d" using ex dI by (simp add: overlay_exact_def)
        then show ?thesis by (simp add: pres)
      next
        case 2
        then show ?thesis using dP by (simp add: pres)
      qed
    qed
    have "view mempool ?M' d
            = dec_by mempool (alreadyAdded \<inter> ?anc d)
                (dec_by mempool (I \<inter> ?anc d) (CTxMemPoolModifiedEntry_of mempool d))"
      using step [OF dP] ex dI by (simp add: overlay_exact_def)
    also have "\<dots> = dec_by mempool ((I \<inter> ?anc d) \<union> (alreadyAdded \<inter> ?anc d))
                        (CTxMemPoolModifiedEntry_of mempool d)"
      using dj by (intro dec_by_union) auto
    also have "(I \<inter> ?anc d) \<union> (alreadyAdded \<inter> ?anc d) = (I \<union> alreadyAdded) \<inter> ?anc d"
      by auto
    finally show "view mempool ?M' d
            = dec_by mempool ((I \<union> alreadyAdded) \<inter> ?anc d) (CTxMemPoolModifiedEntry_of mempool d)" .
  qed
  show "overlay_exact mempool (I \<union> alreadyAdded) ?M'"
    unfolding overlay_exact_def using inv by blast
qed

text \<open>The overlay after the first pass on the example pool.\<close>

definition overlay_after_TxA :: "txid indexed_modified_transaction_set" where
  "overlay_after_TxA =
     [\<lparr>iter = TxD, nSizeWithAncestors = 400, nModFeesWithAncestors = 3500,
       nSigOpCostWithAncestors = 12\<rparr>]"

text \<open>
  Claim C6 on the example pool. From the empty overlay, adding \<open>TxA\<close> inserts the fresh
  entry of \<open>TxD\<close> with the individuals of \<open>TxA\<close> taken off, 400/3500/12, which is the
  overlay that pass 1 of the loop leaves. That overlay is exact for \<open>{TxA}\<close>; adding \<open>TxB\<close>
  decrements the entry to 300/3000/8 and the overlay is exact for \<open>{TxA, TxB}\<close>.
\<close>

theorem UpdatePackagesForAdded_maintains_overlay_witness:
  "overlay_exact pool3 {TxA} overlay_after_TxA
   \<and> {TxB} \<inter> {TxA} = {}
   \<and> overlay_exact pool3 ({TxA} \<union> {TxB})
        (snd (UpdatePackagesForAdded pool3 {TxB} overlay_after_TxA))
   \<and> modified_find (snd (UpdatePackagesForAdded pool3 {TxA} [])) TxD
       = Some \<lparr>iter = TxD, nSizeWithAncestors = 400, nModFeesWithAncestors = 3500,
               nSigOpCostWithAncestors = 12\<rparr>
   \<and> modified_find (snd (UpdatePackagesForAdded pool3 {TxB} overlay_after_TxA)) TxD
       = Some \<lparr>iter = TxD, nSizeWithAncestors = 300, nModFeesWithAncestors = 3000,
               nSigOpCostWithAncestors = 8\<rparr>
   \<and> modified_find (snd (UpdatePackagesForAdded pool3 {TxB} overlay_after_TxA)) TxA = None"
proof -
  have ex: "overlay_exact pool3 {TxA} overlay_after_TxA"
    unfolding overlay_exact_def
  proof (intro allI impI)
    fix d :: txid assume "d \<notin> {TxA}"
    then show "({TxA} \<inter> CalculateMemPoolAncestors pool3 d \<noteq> {} \<longrightarrow>
                  modified_count overlay_after_TxA d)
             \<and> view pool3 overlay_after_TxA d
                 = dec_by pool3 ({TxA} \<inter> CalculateMemPoolAncestors pool3 d)
                     (CTxMemPoolModifiedEntry_of pool3 d)"
      by (cases d)
         (simp_all add: pool3_def overlay_after_TxA_def modified_count_def modified_find_def
            view_def dec_by_def CTxMemPoolModifiedEntry_of_def)
  qed
  have dj: "{TxB} \<inter> {TxA} = {}" by simp
  note T = UpdatePackagesForAdded_maintains_overlay [OF pool3_ancestry, of "{TxA}" overlay_after_TxA "{TxB}"]
  note U = UpdatePackagesForAdded_maintains_overlay [OF pool3_ancestry, of "{}" "[]" "{TxA}"]
  have m: "overlay_exact pool3 ({TxA} \<union> {TxB})
        (snd (UpdatePackagesForAdded pool3 {TxB} overlay_after_TxA))"
    using T ex dj by blast
  have anc: "CalculateMemPoolAncestors pool3 TxD = {TxA, TxB}"
    "CalculateMemPoolAncestors pool3 TxA = {}"
    by (simp_all add: pool3_def)
  have f1: "modified_find (snd (UpdatePackagesForAdded pool3 {TxA} [])) TxD
       = Some \<lparr>iter = TxD, nSizeWithAncestors = 400, nModFeesWithAncestors = 3500,
               nSigOpCostWithAncestors = 12\<rparr>"
    using conjunct2 [OF U, THEN spec, of TxD] 
    by (simp add: anc modified_find_def dec_by_def CTxMemPoolModifiedEntry_of_def pool3_def)
  have f2: "modified_find (snd (UpdatePackagesForAdded pool3 {TxB} overlay_after_TxA)) TxD
       = Some \<lparr>iter = TxD, nSizeWithAncestors = 300, nModFeesWithAncestors = 3000,
               nSigOpCostWithAncestors = 8\<rparr>"
    using conjunct2 [OF T, THEN spec, of TxD]
    by (simp add: anc modified_find_def dec_by_def overlay_after_TxA_def pool3_def)
  have f3: "modified_find (snd (UpdatePackagesForAdded pool3 {TxB} overlay_after_TxA)) TxA = None"
    using conjunct2 [OF T, THEN spec, of TxA]
    by (simp add: anc modified_find_def overlay_after_TxA_def)
  show ?thesis using ex dj m f1 f2 f3 by blast
qed

text \<open>
  The hypothesis that the overlay is exact before the call is not met at every call the
  selection loop makes. On the example pool with a block of weight 6000: pass 1 commits
  \<open>TxA\<close> and gives \<open>TxD\<close> the entry 400/3500/12; pass 2 skips \<open>TxD\<close> in \<open>mapTx\<close>; pass 3
  evaluates the entry of \<open>TxD\<close>, \<open>TestPackage\<close> fails and the failure branch erases the
  entry (line 396), which leaves an overlay that is not exact for \<open>{TxA}\<close>; pass 4 commits
  \<open>TxB\<close>, and the call makes a fresh entry for \<open>TxD\<close> from the cached aggregates minus
  \<open>TxB\<close> alone, 400/4500/12, where the cached aggregates minus the individuals of both
  included ancestors are 300/3000/8.
\<close>

lemma failure_branch_leaves_overlay_inexact:
  "map_option (\<lambda>(a, l). (inBlock a, mapModifiedTx l))
     (outcome_state (loop_passes 3 pool3 limits0 tie0 (assembler_floor 1) locals0))
     = Some ({TxA}, [])
   \<and> \<not> overlay_exact pool3 {TxA} []
   \<and> map_option (\<lambda>(a, l). (inBlock a, mapModifiedTx l))
     (outcome_state (loop_passes 4 pool3 limits0 tie0 (assembler_floor 1) locals0))
     = Some ({TxA, TxB},
             [\<lparr>iter = TxD, nSizeWithAncestors = 400, nModFeesWithAncestors = 4500,
               nSigOpCostWithAncestors = 12\<rparr>])
   \<and> dec_by pool3 {TxA, TxB} (CTxMemPoolModifiedEntry_of pool3 TxD)
       = \<lparr>iter = TxD, nSizeWithAncestors = 300, nModFeesWithAncestors = 3000,
          nSigOpCostWithAncestors = 8\<rparr>"
proof -
  have p3: "map_option (\<lambda>(a, l). (inBlock a, mapModifiedTx l))
     (outcome_state (loop_passes 3 pool3 limits0 tie0 (assembler_floor 1) locals0))
     = Some ({TxA}, [])"
    by code_simp
  have p4: "map_option (\<lambda>(a, l). (inBlock a, mapModifiedTx l))
     (outcome_state (loop_passes 4 pool3 limits0 tie0 (assembler_floor 1) locals0))
     = Some ({TxA, TxB},
             [\<lparr>iter = TxD, nSizeWithAncestors = 400, nModFeesWithAncestors = 4500,
               nSigOpCostWithAncestors = 12\<rparr>])"
    by code_simp
  have ne: "\<not> overlay_exact pool3 {TxA} []"
  proof
    assume "overlay_exact pool3 {TxA} []"
    then have "{TxA} \<inter> CalculateMemPoolAncestors pool3 TxD \<noteq> {} \<longrightarrow> modified_count [] TxD"
      unfolding overlay_exact_def by (elim allE [where x = TxD]) simp
    then show False by (simp add: pool3_def modified_count_def modified_find_def)
  qed
  have d: "dec_by pool3 {TxA, TxB} (CTxMemPoolModifiedEntry_of pool3 TxD)
       = \<lparr>iter = TxD, nSizeWithAncestors = 300, nModFeesWithAncestors = 3000,
          nSigOpCostWithAncestors = 8\<rparr>"
    by (simp add: dec_by_def CTxMemPoolModifiedEntry_of_def pool3_def)
  show ?thesis using p3 p4 ne d by blast
qed


section \<open>Topological order of the block\<close>

text \<open>
  A list of transactions is ordered after ancestors when an ancestor of an element never
  stands at the same or a later position.
\<close>

definition ordered_after_ancestors :: "'h CTxMemPool \<Rightarrow> 'h list \<Rightarrow> bool" where
  "ordered_after_ancestors mempool hs \<longleftrightarrow>
     (\<forall>i j. i < length hs \<and> j < length hs
            \<and> hs ! j \<in> CalculateMemPoolAncestors mempool (hs ! i) \<longrightarrow> j < i)"

lemma count_less:
  fixes mempool :: "'h::finite CTxMemPool"
  assumes ac: "ancestry_consistent mempool"
    and a: "a \<in> CalculateMemPoolAncestors mempool x"
  shows "GetCountWithAncestors mempool a < GetCountWithAncestors mempool x"
proof -
  let ?anc = "CalculateMemPoolAncestors mempool"
  have sub: "?anc a \<subseteq> ?anc x" using ac a by (simp add: ancestry_consistent_def)
  have "a \<notin> ?anc a" using ac by (simp add: ancestry_consistent_def)
  with a sub have "?anc a \<subset> ?anc x" by auto
  then have "card (?anc a) < card (?anc x)" by (intro psubset_card_mono) simp_all
  then show ?thesis using ac by (simp add: ancestry_consistent_def)
qed

lemma SortForBlock_ordered:
  fixes mempool :: "'h::{finite, linorder} CTxMemPool"
  assumes ac: "ancestry_consistent mempool"
  shows "ordered_after_ancestors mempool (SortForBlock mempool tie package)"
  unfolding ordered_after_ancestors_def
proof (intro allI impI, elim conjE)
  let ?key = "\<lambda>it. (GetCountWithAncestors mempool it, tie it)"
  let ?xs = "SortForBlock mempool tie package"
  fix i j assume i: "i < length ?xs" and j: "j < length ?xs"
    and a: "?xs ! j \<in> CalculateMemPoolAncestors mempool (?xs ! i)"
  have srt: "sorted (map ?key ?xs)" by (simp add: SortForBlock_def)
  have lt: "?key (?xs ! j) < ?key (?xs ! i)"
    using count_less [OF ac a] by (simp add: less_prod_def)
  show "j < i"
  proof (rule ccontr)
    assume "\<not> j < i"
    then have "i \<le> j" by simp
    then have "map ?key ?xs ! i \<le> map ?key ?xs ! j"
      using srt j by (intro sorted_nth_mono) simp_all
    then have "?key (?xs ! i) \<le> ?key (?xs ! j)" using i j by simp
    with lt show False by (meson leD)
  qed
qed

lemma ordered_append:
  assumes xs: "ordered_after_ancestors mempool xs"
    and ys: "ordered_after_ancestors mempool ys"
    and no: "\<forall>x \<in> set xs. \<forall>y \<in> set ys. y \<notin> CalculateMemPoolAncestors mempool x"
  shows "ordered_after_ancestors mempool (xs @ ys)"
  unfolding ordered_after_ancestors_def
proof (intro allI impI, elim conjE)
  fix i j assume i: "i < length (xs @ ys)" and j: "j < length (xs @ ys)"
    and a: "(xs @ ys) ! j \<in> CalculateMemPoolAncestors mempool ((xs @ ys) ! i)"
  show "j < i"
  proof (cases "i < length xs")
    case ix: True
    show ?thesis
    proof (cases "j < length xs")
      case True
      with ix a xs show ?thesis by (simp add: nth_append ordered_after_ancestors_def)
    next
      case False
      then have "(xs @ ys) ! j \<in> set ys" using j by (simp add: nth_append)
      moreover have "(xs @ ys) ! i \<in> set xs" using ix by (simp add: nth_append)
      ultimately show ?thesis using a no by blast
    qed
  next
    case iy: False
    show ?thesis
    proof (cases "j < length xs")
      case True
      with iy show ?thesis by simp
    next
      case False
      have "i - length xs < length ys" "j - length xs < length ys"
        using i j iy False by simp_all
      moreover have "ys ! (j - length xs) \<in> CalculateMemPoolAncestors mempool (ys ! (i - length xs))"
        using a iy False by (simp add: nth_append)
      ultimately have "j - length xs < i - length xs"
        using ys unfolding ordered_after_ancestors_def by blast
      then show ?thesis by simp
    qed
  qed
qed

text \<open>
  The invariant behind claim C2: the block is the placeholder followed by the committed
  transactions \<open>hs\<close>, these are the set \<open>inBlock\<close>, every ancestor of a transaction in the
  block is in the block, and \<open>hs\<close> is ordered after ancestors.
\<close>

definition topo_inv :: "'h CTxMemPool \<Rightarrow> 'h BlockAssembler \<Rightarrow> 'h list \<Rightarrow> bool" where
  "topo_inv mempool a hs \<longleftrightarrow>
     vtx (block (pblocktemplate a)) = NullTx # map MempoolTx hs
     \<and> set hs = inBlock a
     \<and> (\<forall>x \<in> inBlock a. CalculateMemPoolAncestors mempool x \<subseteq> inBlock a)
     \<and> ordered_after_ancestors mempool hs"

lemma topo_inv_commit:
  fixes mempool :: "'h::{finite, linorder} CTxMemPool"
  assumes ac: "ancestry_consistent mempool"
    and inv: "topo_inv mempool a hs"
    and nin: "it \<notin> inBlock a"
  shows "topo_inv mempool
           (fst (commit_package mempool tie
                  (insert it (onlyUnconfirmed a (CalculateMemPoolAncestors mempool it))) a l))
           (hs @ SortForBlock mempool tie
                  (insert it (onlyUnconfirmed a (CalculateMemPoolAncestors mempool it))))"
proof -
  let ?anc = "CalculateMemPoolAncestors mempool"
  let ?P = "insert it (onlyUnconfirmed a (?anc it))"
  let ?a2 = "fst (commit_package mempool tie ?P a l)"
  have P: "?P = insert it (?anc it) - inBlock a" by (rule package_eq [OF nin])
  have I2: "inBlock ?a2 = inBlock a \<union> ?P" by (rule inBlock_commit_package)
  have v: "vtx (block (pblocktemplate ?a2))
             = NullTx # map MempoolTx (hs @ SortForBlock mempool tie ?P)"
    using inv by (simp add: topo_inv_def fst_commit_package fst_add_sorted)
  have s: "set (hs @ SortForBlock mempool tie ?P) = inBlock ?a2"
    using inv unfolding I2 by (simp add: topo_inv_def set_SortForBlock)
  have cl: "?anc x \<subseteq> inBlock a \<union> ?P" if "x \<in> inBlock a \<union> ?P" for x
  proof (cases "x \<in> inBlock a")
    case True
    then show ?thesis using inv by (auto simp: topo_inv_def)
  next
    case False
    with that have "x = it \<or> x \<in> ?anc it" unfolding P by auto
    then have "?anc x \<subseteq> ?anc it" using ac by (auto simp: ancestry_consistent_def)
    then show ?thesis unfolding P by auto
  qed
  have no: "\<forall>x \<in> set hs. \<forall>y \<in> set (SortForBlock mempool tie ?P). y \<notin> ?anc x"
  proof (intro ballI)
    fix x y assume x: "x \<in> set hs" and y: "y \<in> set (SortForBlock mempool tie ?P)"
    from x inv have "?anc x \<subseteq> inBlock a" by (auto simp: topo_inv_def)
    moreover from y have "y \<notin> inBlock a" unfolding set_SortForBlock P by auto
    ultimately show "y \<notin> ?anc x" by auto
  qed
  have o: "ordered_after_ancestors mempool (hs @ SortForBlock mempool tie ?P)"
    using inv by (intro ordered_append SortForBlock_ordered [OF ac] no) (simp add: topo_inv_def)
  show ?thesis unfolding topo_inv_def using v s cl o unfolding I2 by blast
qed

lemma topo_inv_step:
  fixes mempool :: "'h::{finite, linorder} CTxMemPool"
  assumes ac: "ancestry_consistent mempool"
    and inv: "\<exists>hs. topo_inv mempool a hs"
    and out: "outcome_state (loop_body mempool limits tie a l) = Some (a2, l2)"
  shows "\<exists>hs. topo_inv mempool a2 hs"
  using loop_body_cases [OF out]
proof (elim disjE conjE exE)
  fix S assume "a2 = a"
  with inv show ?thesis by simp
next
  fix it modit l1
  assume nin: "it \<notin> inBlock a"
    and c: "(a2, l2) = commit_package mempool tie
               (insert it (onlyUnconfirmed a (CalculateMemPoolAncestors mempool it))) a l1"
  from inv obtain hs where hs: "topo_inv mempool a hs" by blast
  have a2: "a2 = fst (commit_package mempool tie
               (insert it (onlyUnconfirmed a (CalculateMemPoolAncestors mempool it))) a l1)"
    using c by (metis fst_conv)
  show ?thesis unfolding a2 using topo_inv_commit [OF ac hs nin] by blast
qed

lemma topo_inv_prelude:
  "topo_inv mempool (CreateNewBlock_prelude chain a0 w) []"
  by (simp add: topo_inv_def ordered_after_ancestors_def CreateNewBlock_prelude_def Let_def
      resetBlock_def new_CBlockTemplate_def)

text \<open>
  Claim C2. For a pool with consistent ancestry, in every template that \<open>CreateNewBlock\<close>
  returns a transaction stands at a strictly greater position than each of its in-pool
  ancestors in the template; moreover every in-pool ancestor of a transaction of the
  template is in the template. The reason is the one the claim gives: \<open>SortForBlock\<close>, the
  sort of a package by ancestor count (ties in any order \<open>tie\<close>), puts every transaction
  after its ancestors, for every package.
\<close>

theorem CreateNewBlock_topological_order:
  fixes mempool :: "'h::{finite, linorder} CTxMemPool"
  assumes ac: "ancestry_consistent mempool"
    and run: "CreateNewBlock mempool limits tie chain a0 scriptPubKeyIn fMineWitnessTx = Inr (t, a)"
  shows "(\<forall>i j x y. i < length (vtx (block t)) \<and> j < length (vtx (block t))
            \<and> vtx (block t) ! i = MempoolTx x \<and> vtx (block t) ! j = MempoolTx y
            \<and> y \<in> CalculateMemPoolAncestors mempool x \<longrightarrow> j < i)
       \<and> (\<forall>x y. MempoolTx x \<in> set (vtx (block t))
            \<and> y \<in> CalculateMemPoolAncestors mempool x \<longrightarrow> MempoolTx y \<in> set (vtx (block t)))
       \<and> (\<forall>package. ordered_after_ancestors mempool (SortForBlock mempool tie package))"
proof -
  let ?a1 = "CreateNewBlock_prelude chain a0 fMineWitnessTx"
  let ?anc = "CalculateMemPoolAncestors mempool"
  from run obtain a3 l3 where
    sel: "addPackageTxs mempool limits tie ?a1 0 0 = Inr (a3, l3)"
    and fin: "CreateNewBlock_finish chain scriptPubKeyIn a3 = Inr (t, a)"
    by (auto simp: CreateNewBlock_def split: sum.splits prod.splits)
  have init: "\<exists>hs. topo_inv mempool ?a1 hs"
    using topo_inv_prelude [of mempool chain a0 fMineWitnessTx] by blast
  have "\<exists>hs. topo_inv mempool a3 hs"
    by (rule addPackageTxs_loop_invariant
          [where P = "\<lambda>a l. \<exists>hs. topo_inv mempool a hs",
           OF sel [unfolded addPackageTxs_def] init topo_inv_step [OF ac]])
  then obtain hs where hs: "topo_inv mempool a3 hs" by blast
  obtain c where vt: "vtx (block t) = c # map MempoolTx hs" and c: "\<forall>x. c \<noteq> MempoolTx x"
    using CreateNewBlock_finish_Inr(1) [OF fin] hs by (simp add: topo_inv_def)
  have cls: "\<forall>x \<in> set hs. ?anc x \<subseteq> set hs" using hs by (simp add: topo_inv_def)
  have ord: "ordered_after_ancestors mempool hs" using hs by (simp add: topo_inv_def)
  have pos: "j < i"
    if "i < length (vtx (block t))" "j < length (vtx (block t))"
      "vtx (block t) ! i = MempoolTx x" "vtx (block t) ! j = MempoolTx y" "y \<in> ?anc x"
    for i j x y
  proof -
    have "i \<noteq> 0"
    proof
      assume "i = 0"
      with that(3) have "c = MempoolTx x" unfolding vt by simp
      with c show False by blast
    qed
    moreover have "j \<noteq> 0"
    proof
      assume "j = 0"
      with that(4) have "c = MempoolTx y" unfolding vt by simp
      with c show False by blast
    qed
    ultimately have "i \<noteq> 0" "j \<noteq> 0" by simp_all
    then obtain i' j' where ij: "i = Suc i'" "j = Suc j'"
      by (metis not0_implies_Suc)
    have "i' < length hs" "j' < length hs" using that(1,2) unfolding vt ij by simp_all
    moreover have "hs ! i' = x" "hs ! j' = y"
      using that(3,4) \<open>i' < length hs\<close> \<open>j' < length hs\<close> unfolding vt ij by simp_all
    ultimately have "j' < i'"
      using ord that(5) unfolding ordered_after_ancestors_def by blast
    then show ?thesis unfolding ij by simp
  qed
  have mem: "MempoolTx y \<in> set (vtx (block t))"
    if "MempoolTx x \<in> set (vtx (block t))" "y \<in> ?anc x" for x y
  proof -
    from that(1) c have "x \<in> set hs" unfolding vt by auto
    with cls that(2) have "y \<in> set hs" by blast
    then show ?thesis unfolding vt by simp
  qed
  show ?thesis using pos mem SortForBlock_ordered [OF ac] by blast
qed

text \<open>
  Claim C2 on the example pool with room for all three transactions: \<open>TxD\<close> is committed
  in one package with \<open>TxB\<close> and stands after both of its ancestors.
\<close>

theorem CreateNewBlock_topological_order_witness:
  "\<exists>t a. CreateNewBlock pool3 limits0 tie0 chain0
            (BlockAssembler_new limits0 (options0\<lparr>opt_nBlockMaxWeight := 10000\<rparr>)) [] True
          = Inr (t, a)
     \<and> vtx (block t) = [CoinbaseTx [] 4550 101, MempoolTx TxA, MempoolTx TxB, MempoolTx TxD]
     \<and> TxA \<in> CalculateMemPoolAncestors pool3 TxD
     \<and> (1::nat) < 3"
proof -
  have "case CreateNewBlock pool3 limits0 tie0 chain0
            (BlockAssembler_new limits0 (options0\<lparr>opt_nBlockMaxWeight := 10000\<rparr>)) [] True of
          Inl e \<Rightarrow> False
        | Inr (t, a) \<Rightarrow>
            vtx (block t) = [CoinbaseTx [] 4550 101, MempoolTx TxA, MempoolTx TxB, MempoolTx TxD]"
    by code_simp
  then obtain t a where run: "CreateNewBlock pool3 limits0 tie0 chain0
            (BlockAssembler_new limits0 (options0\<lparr>opt_nBlockMaxWeight := 10000\<rparr>)) [] True
          = Inr (t, a)"
    and v: "vtx (block t) = [CoinbaseTx [] 4550 101, MempoolTx TxA, MempoolTx TxB, MempoolTx TxD]"
    by (auto split: sum.splits prod.splits)
  have anc: "TxA \<in> CalculateMemPoolAncestors pool3 TxD" by (simp add: pool3_def)
  have "(1::nat) < 3"
    using CreateNewBlock_topological_order [OF pool3_ancestry run] v anc
    by (auto elim!: allE [where x = 3] allE [where x = 1])
  with run v anc show ?thesis by blast
qed


section \<open>Two runs of the assembly\<close>

text \<open>
  The inputs of the selection are the pool, the limits, the assembler with its options and
  what \<open>CreateNewBlock\<close> reads from the chain. The order that the sort of a package gives
  to entries of equal ancestor count, the rank \<open>tie\<close>, reaches the lists of the template
  and nothing else; \<open>forget_template\<close> drops the template from an assembler.
\<close>

definition forget_template :: "'h BlockAssembler \<Rightarrow> 'h BlockAssembler" where
  "forget_template a = a\<lparr>pblocktemplate := new_CBlockTemplate\<rparr>"

lemma forget_template_eqD:
  assumes "forget_template a = forget_template a'"
  shows "a' = a\<lparr>pblocktemplate := pblocktemplate a'\<rparr>"
  using assms by (cases a; cases a') (simp add: forget_template_def)

lemma forget_template_update [simp]:
  "forget_template (a\<lparr>pblocktemplate := t\<rparr>) = forget_template a"
  by (simp add: forget_template_def)

lemma SkipMapTxEntry_template [simp]:
  "SkipMapTxEntry (a\<lparr>pblocktemplate := t\<rparr>) = SkipMapTxEntry a"
  by (intro ext) (simp add: SkipMapTxEntry_def)

lemma TestPackage_template [simp]:
  "TestPackage limits (a\<lparr>pblocktemplate := t\<rparr>) = TestPackage limits a"
  by (intro ext) (simp add: TestPackage_def)

lemma TestPackageTransactions_template [simp]:
  "TestPackageTransactions mempool (a\<lparr>pblocktemplate := t\<rparr>) = TestPackageTransactions mempool a"
  by (intro ext) (simp add: TestPackageTransactions_def)

lemma onlyUnconfirmed_template [simp]:
  "onlyUnconfirmed (a\<lparr>pblocktemplate := t\<rparr>) = onlyUnconfirmed a"
  by (intro ext) (simp add: onlyUnconfirmed_def)

lemma length_SortForBlock: "length (SortForBlock mempool tie package) = card package"
  by (simp add: SortForBlock_def)

lemma snd_commit_package:
  "snd (commit_package mempool tie package a l) =
     l\<lparr>nConsecutiveFailed := 0,
       mapModifiedTx :=
         snd (UpdatePackagesForAdded mempool package
                (filter (\<lambda>e. iter e \<notin> package) (mapModifiedTx l))),
       nPackagesSelected := nPackagesSelected l + 1,
       nDescendantsUpdated :=
         nDescendantsUpdated l
         + fst (UpdatePackagesForAdded mempool package
                  (filter (\<lambda>e. iter e \<notin> package) (mapModifiedTx l)))\<rparr>"
  by (simp add: commit_package_def Let_def snd_add_sorted set_SortForBlock)

lemma forget_commit_package:
  "forget_template (fst (commit_package mempool tie package (a\<lparr>pblocktemplate := t\<rparr>) l))
     = forget_template (fst (commit_package mempool tie' package a l))"
  by (simp add: forget_template_def fst_commit_package fst_add_sorted sum_list_SortForBlock
      set_SortForBlock length_SortForBlock)

lemma snd_commit_package_indep:
  "snd (commit_package mempool tie package (a\<lparr>pblocktemplate := t\<rparr>) l)
     = snd (commit_package mempool tie' package a l)"
  by (simp add: snd_commit_package)

fun outcome_forget :: "'h loop_outcome \<Rightarrow> 'h loop_outcome" where
  "outcome_forget (Continue a l) = Continue (forget_template a) l"
| "outcome_forget (Return a l) = Return (forget_template a) l"
| "outcome_forget (Break a l) = Break (forget_template a) l"
| "outcome_forget AssertFailed = AssertFailed"

lemma evaluate_candidate_forget:
  "outcome_forget (evaluate_candidate mempool limits tie (a\<lparr>pblocktemplate := t\<rparr>) it modit l)
     = outcome_forget (evaluate_candidate mempool limits tie' a it modit l)"
proof -
  obtain ps pf pc where pk: "package_of mempool it modit = (ps, pf, pc)"
    by (cases "package_of mempool it modit") auto
  let ?P = "insert it (onlyUnconfirmed a (CalculateMemPoolAncestors mempool it))"
  obtain a1 l1 where c1: "commit_package mempool tie ?P (a\<lparr>pblocktemplate := t\<rparr>) l = (a1, l1)"
    by (cases "commit_package mempool tie ?P (a\<lparr>pblocktemplate := t\<rparr>) l") auto
  obtain a2 l2 where c2: "commit_package mempool tie' ?P a l = (a2, l2)"
    by (cases "commit_package mempool tie' ?P a l") auto
  have "forget_template a1 = forget_template a2"
    using forget_commit_package [where mempool = mempool and tie = tie and package = ?P
        and a = a and t = t and l = l and tie' = tie'] c1 c2 by simp
  moreover have "l1 = l2"
    using snd_commit_package_indep [where mempool = mempool and tie = tie and package = ?P
        and a = a and t = t and l = l and tie' = tie'] c1 c2 by simp
  ultimately show ?thesis
    unfolding evaluate_candidate_def pk by (simp add: Let_def c1 c2)
qed

lemma loop_body_forget:
  "outcome_forget (loop_body mempool limits tie (a\<lparr>pblocktemplate := t\<rparr>) l)
     = outcome_forget (loop_body mempool limits tie' a l)"
  unfolding loop_body_def
  by (simp add: evaluate_candidate_forget split: option.splits prod.splits)

lemma loop_body_forget':
  assumes "forget_template a = forget_template a'"
  shows "outcome_forget (loop_body mempool limits tie' a' l)
           = outcome_forget (loop_body mempool limits tie a l)"
  using loop_body_forget [where mempool = mempool and limits = limits and tie = tie' and a = a
      and t = "pblocktemplate a'" and l = l and tie' = tie]
    forget_template_eqD [OF assms] by simp

lemma addPackageTxs_loop_forget:
  "forget_template a = forget_template a' \<Longrightarrow>
     map_sum id (apfst forget_template) (addPackageTxs_loop mempool limits tie a l)
       = map_sum id (apfst forget_template) (addPackageTxs_loop mempool limits tie' a' l)"
proof (induction mempool limits tie a l arbitrary: a' rule: addPackageTxs_loop.induct)
  case (1 mempool limits tie a l)
  note eq = loop_body_forget' [OF "1.prems", of mempool limits tie' l tie]
  show ?case
  proof (cases "mi l = [] \<and> mapModifiedTx l = []")
    case True
    then show ?thesis
      using "1.prems"
      by (simp add: addPackageTxs_loop.simps [of mempool limits tie a l]
          addPackageTxs_loop.simps [of mempool limits tie' a' l])
  next
    case False
    show ?thesis
    proof (cases "loop_body mempool limits tie a l")
      case (Continue a2 l2)
      with eq obtain a2' where o': "loop_body mempool limits tie' a' l = Continue a2' l2"
        and f: "forget_template a2 = forget_template a2'"
        by (cases "loop_body mempool limits tie' a' l") auto
      show ?thesis
        using "1.IH" [OF False Continue f] False Continue o'
        by (auto simp: addPackageTxs_loop.simps [of mempool limits tie a l]
            addPackageTxs_loop.simps [of mempool limits tie' a' l])
    next
      case (Return a2 l2)
      with eq obtain a2' where o': "loop_body mempool limits tie' a' l = Return a2' l2"
        and f: "forget_template a2 = forget_template a2'"
        by (cases "loop_body mempool limits tie' a' l") auto
      show ?thesis
        using False Return o' f
        by (auto simp: addPackageTxs_loop.simps [of mempool limits tie a l]
            addPackageTxs_loop.simps [of mempool limits tie' a' l])
    next
      case (Break a2 l2)
      with eq obtain a2' where o': "loop_body mempool limits tie' a' l = Break a2' l2"
        and f: "forget_template a2 = forget_template a2'"
        by (cases "loop_body mempool limits tie' a' l") auto
      show ?thesis
        using False Break o' f
        by (auto simp: addPackageTxs_loop.simps [of mempool limits tie a l]
            addPackageTxs_loop.simps [of mempool limits tie' a' l])
    next
      case AssertFailed
      with eq have o': "loop_body mempool limits tie' a' l = AssertFailed"
        by (cases "loop_body mempool limits tie' a' l") auto
      show ?thesis
        using False AssertFailed o'
        by (auto simp: addPackageTxs_loop.simps [of mempool limits tie a l]
            addPackageTxs_loop.simps [of mempool limits tie' a' l])
    qed
  qed
qed

lemma addPackageTxs_forget:
  "map_sum id (apfst forget_template) (addPackageTxs mempool limits tie a n m)
     = map_sum id (apfst forget_template) (addPackageTxs mempool limits tie' a n m)"
  unfolding addPackageTxs_def by (rule addPackageTxs_loop_forget) simp

lemma CreateNewBlock_vtx_set:
  assumes "CreateNewBlock mempool limits tie chain a0 scriptPubKeyIn fMineWitnessTx = Inr (t, b)"
  shows "\<exists>a l. addPackageTxs mempool limits tie
                  (CreateNewBlock_prelude chain a0 fMineWitnessTx) 0 0 = Inr (a, l)
           \<and> b = a\<lparr>pblocktemplate := t\<rparr>
           \<and> set (vtx (block t)) =
               insert (CoinbaseTx scriptPubKeyIn
                         (nFees a + GetBlockSubsidy chain (nHeight a)) (nHeight a))
                 (MempoolTx ` inBlock a)"
proof -
  let ?a1 = "CreateNewBlock_prelude chain a0 fMineWitnessTx"
  from assms obtain a3 l3 where
    run: "addPackageTxs mempool limits tie ?a1 0 0 = Inr (a3, l3)"
    and fin: "CreateNewBlock_finish chain scriptPubKeyIn a3 = Inr (t, b)"
    by (auto simp: CreateNewBlock_def split: sum.splits prod.splits)
  have init: "(\<exists>hs. fees_inv mempool ?a1 hs) \<and> nHeight ?a1 = nHeight ?a1"
    using fees_inv_prelude [of mempool chain a0 fMineWitnessTx] by blast
  have "(\<exists>hs. fees_inv mempool a3 hs) \<and> nHeight a3 = nHeight ?a1"
    by (rule addPackageTxs_loop_invariant
          [where P = "\<lambda>a l. (\<exists>hs. fees_inv mempool a hs) \<and> nHeight a = nHeight ?a1",
           OF run [unfolded addPackageTxs_def] init fees_inv_step])
  then obtain hs where hs: "fees_inv mempool a3 hs" by blast
  have "set (vtx (block t)) =
               insert (CoinbaseTx scriptPubKeyIn
                         (nFees a3 + GetBlockSubsidy chain (nHeight a3)) (nHeight a3))
                 (MempoolTx ` inBlock a3)"
    using CreateNewBlock_finish_Inr(1) [OF fin] hs by (auto simp: fees_inv_def)
  with run CreateNewBlock_finish_Inr(3) [OF fin] show ?thesis by blast
qed

lemma CreateNewBlock_tie_order:
  fixes mempool :: "'h::{finite, linorder} CTxMemPool"
  assumes r: "CreateNewBlock mempool limits tie chain a0 scriptPubKeyIn fMineWitnessTx = Inr (t, b)"
    and r': "CreateNewBlock mempool limits tie' chain a0 scriptPubKeyIn fMineWitnessTx = Inr (t', b')"
  shows "set (vtx (block t')) = set (vtx (block t))"
    and "forget_template b' = forget_template b"
proof -
  let ?a1 = "CreateNewBlock_prelude chain a0 fMineWitnessTx"
  from CreateNewBlock_vtx_set [OF r] obtain a l where
    s: "addPackageTxs mempool limits tie ?a1 0 0 = Inr (a, l)" "b = a\<lparr>pblocktemplate := t\<rparr>"
       "set (vtx (block t)) = insert (CoinbaseTx scriptPubKeyIn
                         (nFees a + GetBlockSubsidy chain (nHeight a)) (nHeight a))
                 (MempoolTx ` inBlock a)"
    by blast
  from CreateNewBlock_vtx_set [OF r'] obtain a' l' where
    s': "addPackageTxs mempool limits tie' ?a1 0 0 = Inr (a', l')" "b' = a'\<lparr>pblocktemplate := t'\<rparr>"
       "set (vtx (block t')) = insert (CoinbaseTx scriptPubKeyIn
                         (nFees a' + GetBlockSubsidy chain (nHeight a')) (nHeight a'))
                 (MempoolTx ` inBlock a')"
    by blast
  have fg: "forget_template a = forget_template a'"
    using addPackageTxs_forget [of mempool limits tie ?a1 0 0 tie'] s(1) s'(1) by simp
  then have e: "a' = a\<lparr>pblocktemplate := pblocktemplate a'\<rparr>" by (rule forget_template_eqD)
  have f: "inBlock a' = inBlock a" "nFees a' = nFees a" "nHeight a' = nHeight a"
    by (subst e, simp)+
  show "set (vtx (block t')) = set (vtx (block t))" unfolding s(3) s'(3) f ..
  show "forget_template b' = forget_template b" unfolding s(2) s'(2) using fg by simp
qed

text \<open>
  What a run reads of the assembler it starts from: the two options, the minimum fee rate
  and the maximum weight. \<open>resetBlock\<close> and lines 119-154 assign every other member, and
  a run leaves the two options as they were.
\<close>

lemma CreateNewBlock_prelude_options:
  assumes "blockMinFeeRate a0' = blockMinFeeRate a0" and "nBlockMaxWeight a0' = nBlockMaxWeight a0"
  shows "CreateNewBlock_prelude chain a0' w = CreateNewBlock_prelude chain a0 w"
  using assms by (cases a0; cases a0') (simp add: CreateNewBlock_prelude_def Let_def resetBlock_def)

lemma options_commit_package:
  "blockMinFeeRate (fst (commit_package mempool tie package a l)) = blockMinFeeRate a"
  "nBlockMaxWeight (fst (commit_package mempool tie package a l)) = nBlockMaxWeight a"
  by (simp_all add: fst_commit_package fst_add_sorted)

lemma options_step:
  assumes "blockMinFeeRate a = f \<and> nBlockMaxWeight a = m"
    and "outcome_state (loop_body mempool limits tie a l) = Some (a2, l2)"
  shows "blockMinFeeRate a2 = f \<and> nBlockMaxWeight a2 = m"
  using loop_body_cases [OF assms(2)]
proof (elim disjE conjE exE)
  fix S assume "a2 = a"
  with assms(1) show ?thesis by simp
next
  fix it modit l1
  assume c: "(a2, l2) = commit_package mempool tie
               (insert it (onlyUnconfirmed a (CalculateMemPoolAncestors mempool it))) a l1"
  have a2: "a2 = fst (commit_package mempool tie
               (insert it (onlyUnconfirmed a (CalculateMemPoolAncestors mempool it))) a l1)"
    using c by (metis fst_conv)
  show ?thesis unfolding a2 using assms(1) by (simp add: options_commit_package)
qed

lemma CreateNewBlock_keeps_options:
  assumes "CreateNewBlock mempool limits tie chain a0 scriptPubKeyIn fMineWitnessTx = Inr (t, b)"
  shows "blockMinFeeRate b = blockMinFeeRate a0" and "nBlockMaxWeight b = nBlockMaxWeight a0"
proof -
  let ?a1 = "CreateNewBlock_prelude chain a0 fMineWitnessTx"
  from assms obtain a3 l3 where
    run: "addPackageTxs mempool limits tie ?a1 0 0 = Inr (a3, l3)"
    and fin: "CreateNewBlock_finish chain scriptPubKeyIn a3 = Inr (t, b)"
    by (auto simp: CreateNewBlock_def split: sum.splits prod.splits)
  have init: "blockMinFeeRate ?a1 = blockMinFeeRate a0 \<and> nBlockMaxWeight ?a1 = nBlockMaxWeight a0"
    by (simp add: CreateNewBlock_prelude_def Let_def resetBlock_def)
  have "blockMinFeeRate a3 = blockMinFeeRate a0 \<and> nBlockMaxWeight a3 = nBlockMaxWeight a0"
    by (rule addPackageTxs_loop_invariant
          [where P = "\<lambda>a l. blockMinFeeRate a = blockMinFeeRate a0
                            \<and> nBlockMaxWeight a = nBlockMaxWeight a0",
           OF run [unfolded addPackageTxs_def] init options_step])
  then show "blockMinFeeRate b = blockMinFeeRate a0" and "nBlockMaxWeight b = nBlockMaxWeight a0"
    unfolding CreateNewBlock_finish_Inr(3) [OF fin] by simp_all
qed

text \<open>
  Claim C8. The assembly is a function of the pool, the limits, the chain state, the
  script, the witness flag and the two options of the assembler: a run from any assembler
  with the same two options has the same outcome, whatever the other members hold. A run
  that returns a template leaves an assembler with these options, so running the assembly
  again from the assembler that the first run left returns the same template and leaves
  the same assembler. Should the sort of a package order entries of equal ancestor count
  differently in the second run (any \<open>tie'\<close>), a template it returns holds the same set of
  transactions, and the assembler it leaves agrees with the first in everything but the
  order of the template lists: the selected set, the fees, the weight and the sig-op cost.
\<close>

theorem CreateNewBlock_twice_same_selection:
  fixes mempool :: "'h::{finite, linorder} CTxMemPool"
  shows "(blockMinFeeRate a0' = blockMinFeeRate a0 \<and> nBlockMaxWeight a0' = nBlockMaxWeight a0 \<longrightarrow>
            CreateNewBlock mempool limits tie chain a0' scriptPubKeyIn fMineWitnessTx
              = CreateNewBlock mempool limits tie chain a0 scriptPubKeyIn fMineWitnessTx)
       \<and> (CreateNewBlock mempool limits tie chain a0 scriptPubKeyIn fMineWitnessTx = Inr (t, b) \<longrightarrow>
            CreateNewBlock mempool limits tie chain b scriptPubKeyIn fMineWitnessTx = Inr (t, b)
            \<and> (\<forall>tie' t' b'.
                  CreateNewBlock mempool limits tie' chain b scriptPubKeyIn fMineWitnessTx
                    = Inr (t', b') \<longrightarrow>
                  set (vtx (block t')) = set (vtx (block t))
                  \<and> inBlock b' = inBlock b \<and> nFees b' = nFees b
                  \<and> nBlockWeight b' = nBlockWeight b
                  \<and> nBlockSigOpsCost b' = nBlockSigOpsCost b
                  \<and> nBlockTx b' = nBlockTx b))"
proof (intro conjI impI allI)
  assume "blockMinFeeRate a0' = blockMinFeeRate a0 \<and> nBlockMaxWeight a0' = nBlockMaxWeight a0"
  then have "CreateNewBlock_prelude chain a0' fMineWitnessTx
               = CreateNewBlock_prelude chain a0 fMineWitnessTx"
    by (intro CreateNewBlock_prelude_options) simp_all
  then show "CreateNewBlock mempool limits tie chain a0' scriptPubKeyIn fMineWitnessTx
              = CreateNewBlock mempool limits tie chain a0 scriptPubKeyIn fMineWitnessTx"
    by (simp add: CreateNewBlock_def)
next
  assume r: "CreateNewBlock mempool limits tie chain a0 scriptPubKeyIn fMineWitnessTx = Inr (t, b)"
  note k = CreateNewBlock_keeps_options [OF r]
  have same: "CreateNewBlock mempool limits tie'' chain b scriptPubKeyIn fMineWitnessTx
                = CreateNewBlock mempool limits tie'' chain a0 scriptPubKeyIn fMineWitnessTx"
    for tie''
    using CreateNewBlock_prelude_options [OF k, of chain fMineWitnessTx]
    by (simp add: CreateNewBlock_def)
  show "CreateNewBlock mempool limits tie chain b scriptPubKeyIn fMineWitnessTx = Inr (t, b)"
    unfolding same by (rule r)
  fix tie' t' b'
  assume "CreateNewBlock mempool limits tie' chain b scriptPubKeyIn fMineWitnessTx = Inr (t', b')"
  then have r': "CreateNewBlock mempool limits tie' chain a0 scriptPubKeyIn fMineWitnessTx
                   = Inr (t', b')"
    unfolding same .
  note o = CreateNewBlock_tie_order [OF r r']
  have e: "b' = b\<lparr>pblocktemplate := pblocktemplate b'\<rparr>"
    by (rule forget_template_eqD [OF o(2) [symmetric]])
  show "set (vtx (block t')) = set (vtx (block t))" by (rule o(1))
  show "inBlock b' = inBlock b" "nFees b' = nFees b" "nBlockWeight b' = nBlockWeight b"
    "nBlockSigOpsCost b' = nBlockSigOpsCost b" "nBlockTx b' = nBlockTx b"
    by (subst e, simp)+
qed

text \<open>
  The example pool walked from the child \<open>TxD\<close>, whose package holds \<open>TxA\<close> and \<open>TxB\<close> with
  equal ancestor counts, a tie order that puts \<open>TxB\<close> first, options with room for the
  three transactions, and an assembler with these options that has been used before.
\<close>

definition pool3_child_first :: "txid CTxMemPool" where
  "pool3_child_first = pool3\<lparr>mapTx_ancestor_score := [TxD, TxA, TxB]\<rparr>"

definition tie1 :: "txid \<Rightarrow> nat" where
  "tie1 t = (case t of TxA \<Rightarrow> 1 | TxB \<Rightarrow> 0 | TxD \<Rightarrow> 0)"

definition options_wide :: BlockAssembler_Options where
  "options_wide = \<lparr>opt_blockMinFeeRate = (\<lambda>size. size), opt_nBlockMaxWeight = 10000\<rparr>"

definition assembler_used :: "txid BlockAssembler" where
  "assembler_used =
     (BlockAssembler_new limits0 options_wide)
       \<lparr>fIncludeWitness := True, nBlockWeight := 4800, nBlockTx := 2, nBlockSigOpsCost := 408,
        nFees := 1500, inBlock := {TxA, TxB}, nHeight := 100\<rparr>"

text \<open>
  Claim C8 on that pool. The used assembler gives what the new one gives. The first run
  returns a template with the three transactions; the run from the assembler it left
  returns the same template and leaves the same assembler; a run from there with the
  other tie order returns a template with \<open>TxA\<close> and \<open>TxB\<close> exchanged and the same set of
  transactions.
\<close>

theorem CreateNewBlock_twice_same_selection_witness:
  "CreateNewBlock pool3_child_first limits0 tie0 chain0 assembler_used [] True
     = CreateNewBlock pool3_child_first limits0 tie0 chain0
         (BlockAssembler_new limits0 options_wide) [] True
   \<and> (\<exists>t b t' b'.
        CreateNewBlock pool3_child_first limits0 tie0 chain0
          (BlockAssembler_new limits0 options_wide) [] True = Inr (t, b)
        \<and> CreateNewBlock pool3_child_first limits0 tie0 chain0 b [] True = Inr (t, b)
        \<and> CreateNewBlock pool3_child_first limits0 tie1 chain0 b [] True = Inr (t', b')
        \<and> vtx (block t) = [CoinbaseTx [] 4550 101, MempoolTx TxA, MempoolTx TxB, MempoolTx TxD]
        \<and> vtx (block t') = [CoinbaseTx [] 4550 101, MempoolTx TxB, MempoolTx TxA, MempoolTx TxD]
        \<and> set (vtx (block t')) = set (vtx (block t))
        \<and> inBlock b' = inBlock b)"
proof -
  let ?P = pool3_child_first
  let ?a0 = "BlockAssembler_new limits0 options_wide :: txid BlockAssembler"
  have o: "blockMinFeeRate assembler_used = blockMinFeeRate ?a0
           \<and> nBlockMaxWeight assembler_used = nBlockMaxWeight ?a0"
    by (simp add: assembler_used_def)
  have u: "CreateNewBlock ?P limits0 tie0 chain0 assembler_used [] True
             = CreateNewBlock ?P limits0 tie0 chain0 ?a0 [] True"
    using CreateNewBlock_twice_same_selection
      [where mempool = ?P and limits = limits0 and tie = tie0 and chain = chain0
         and ?a0.0 = ?a0 and a0' = assembler_used and scriptPubKeyIn = "[]"
         and fMineWitnessTx = True] o
    by blast
  have "case CreateNewBlock ?P limits0 tie0 chain0 ?a0 [] True of
          Inl e \<Rightarrow> False
        | Inr (t, b) \<Rightarrow>
            vtx (block t) = [CoinbaseTx [] 4550 101, MempoolTx TxA, MempoolTx TxB, MempoolTx TxD]
            \<and> (case CreateNewBlock ?P limits0 tie1 chain0 b [] True of
                 Inl e \<Rightarrow> False
               | Inr (t', b') \<Rightarrow>
                   vtx (block t')
                     = [CoinbaseTx [] 4550 101, MempoolTx TxB, MempoolTx TxA, MempoolTx TxD])"
    by code_simp
  then obtain t b where r: "CreateNewBlock ?P limits0 tie0 chain0 ?a0 [] True = Inr (t, b)"
    and v: "vtx (block t) = [CoinbaseTx [] 4550 101, MempoolTx TxA, MempoolTx TxB, MempoolTx TxD]"
    and n: "case CreateNewBlock ?P limits0 tie1 chain0 b [] True of
                 Inl e \<Rightarrow> False
               | Inr (t', b') \<Rightarrow>
                   vtx (block t')
                     = [CoinbaseTx [] 4550 101, MempoolTx TxB, MempoolTx TxA, MempoolTx TxD]"
    by (cases "CreateNewBlock ?P limits0 tie0 chain0 ?a0 [] True") auto
  from n obtain t' b' where r': "CreateNewBlock ?P limits0 tie1 chain0 b [] True = Inr (t', b')"
    and v': "vtx (block t') = [CoinbaseTx [] 4550 101, MempoolTx TxB, MempoolTx TxA, MempoolTx TxD]"
    by (cases "CreateNewBlock ?P limits0 tie1 chain0 b [] True") auto
  note T = CreateNewBlock_twice_same_selection
      [where mempool = ?P and limits = limits0 and tie = tie0 and chain = chain0
         and ?a0.0 = ?a0 and scriptPubKeyIn = "[]" and fMineWitnessTx = True and t = t and b = b]
  have again: "CreateNewBlock ?P limits0 tie0 chain0 b [] True = Inr (t, b)"
    using T r by blast
  have "set (vtx (block t')) = set (vtx (block t)) \<and> inBlock b' = inBlock b"
    using T r r' by blast
  with u r again r' v v' show ?thesis by blast
qed


end
